theory Spec2Isabelle
  imports Main "HOL-Library.Multiset"
begin

section \<open>JavaScript values\<close>

text \<open>
  The presence-tracking engine is JavaScript: \<^verbatim>\<open>utils/ble-utils.js\<close> (staleness,
  lookup, ranking) and the Bluetooth plugin under \<^verbatim>\<open>plugin/\<close> (ingestion, reaper,
  persistence).
  Numbers are modelled as integers or \<open>NaN\<close>: epoch milliseconds and signal strengths are
  integers well inside the range where doubles are exact, and \<open>NaN\<close> is the value the
  code meets when a conversion fails. Fractions and infinities are not represented.
  Strings are Isabelle strings; they are only compared, split and scanned.
\<close>

datatype jsnum = Fin int | NaN

datatype jsval =
    Undefined
  | Null
  | JBool bool
  | JNum jsnum
  | JStr string
  | JObj "(string \<times> jsval) list"

text \<open>\<^verbatim>\<open>!!v\<close>: undefined, null, false, 0, NaN and the empty string are falsy.\<close>

fun truthy :: "jsval \<Rightarrow> bool" where
  "truthy Undefined = False"
| "truthy Null = False"
| "truthy (JBool b) = b"
| "truthy (JNum (Fin n)) = (n \<noteq> 0)"
| "truthy (JNum NaN) = False"
| "truthy (JStr s) = (s \<noteq> [])"
| "truthy (JObj kvs) = True"

text \<open>\<^verbatim>\<open>v == null\<close>, also the test of \<^verbatim>\<open>??\<close>.\<close>

fun nullish :: "jsval \<Rightarrow> bool" where
  "nullish Undefined = True"
| "nullish Null = True"
| "nullish v = False"

text \<open>\<^verbatim>\<open>a || b\<close> and \<^verbatim>\<open>a ?? b\<close> on values.\<close>

definition js_or :: "jsval \<Rightarrow> jsval \<Rightarrow> jsval" where
  "js_or a b = (if truthy a then a else b)"

definition js_coalesce :: "jsval \<Rightarrow> jsval \<Rightarrow> jsval" where
  "js_coalesce a b = (if nullish a then b else a)"

text \<open>Reading a property of a plain object: the first entry with that key, or undefined.\<close>

fun get_prop :: "(string \<times> jsval) list \<Rightarrow> string \<Rightarrow> jsval" where
  "get_prop [] k = Undefined"
| "get_prop ((k', v) # kvs) k = (if k' = k then v else get_prop kvs k)"

text \<open>\<^verbatim>\<open>typeof v === 'object'\<close>: objects, and null.\<close>

fun typeof_object :: "jsval \<Rightarrow> bool" where
  "typeof_object Null = True"
| "typeof_object (JObj kvs) = True"
| "typeof_object v = False"

text \<open>Arithmetic and comparison on numbers: \<open>NaN\<close> absorbs, and compares false.\<close>

fun js_sub :: "jsnum \<Rightarrow> jsnum \<Rightarrow> jsnum" where
  "js_sub (Fin a) (Fin b) = Fin (a - b)"
| "js_sub a b = NaN"

fun js_gt :: "jsnum \<Rightarrow> jsnum \<Rightarrow> bool" where
  "js_gt (Fin a) (Fin b) = (a > b)"
| "js_gt a b = False"

fun js_le :: "jsnum \<Rightarrow> jsnum \<Rightarrow> bool" where
  "js_le (Fin a) (Fin b) = (a \<le> b)"
| "js_le a b = False"

section \<open>The Registry document\<close>

text \<open>
  The persisted document \<^verbatim>\<open>ble_data.json\<close>. An object is an association list in
  own-property order, which is the order \<^verbatim>\<open>Object.entries\<close> and \<^verbatim>\<open>for-in\<close> walk.
  Fields the code tests for absence or reads through a conversion are \<open>jsval\<close>.
  The entries of an association list are the own properties of the object; what an
  object inherits from \<^verbatim>\<open>Object.prototype\<close> is modelled where the code reads or
  writes a property by a computed key (see \<open>inherited\<close> and \<open>obj_set\<close> below).
  A document is taken to have no entry with the key \<^verbatim>\<open>__proto__\<close>: the code never
  writes one, and \<^verbatim>\<open>loadData\<close> would turn it into a prototype.
\<close>

record detection =
  receiver_name :: jsval
  receiver :: jsval
  rssi :: jsval
  online :: jsval
  last_seen :: jsval
  update_time :: jsval
  last_update :: jsval

record beacon =
  name :: "string option"
  first_seen :: jsval
  detections :: "(string \<times> detection) list option"

record device =
  dev_name :: string
  dev_type :: string
  update :: jsval
  batch :: jsval
  total_batches :: jsval

record document =
  devices :: "(string \<times> device) list option"
  beacons :: "(string \<times> beacon) list option"

definition empty_document :: document where
  "empty_document = \<lparr>devices = Some [], beacons = Some []\<rparr>"

section \<open>The platform\<close>

text \<open>
  What \<^verbatim>\<open>JSON.parse\<close> returned, seen at the type of the document: a syntax error, the
  value null, another primitive, or an object.
\<close>

datatype parsed = ParseError | ParsedNull | ParsedPrimitive | ParsedDoc document

text \<open>
  Library functions of the JavaScript platform that the engine calls and that depend on
  the host (time zone, locale, string encoding) are parameters:
  \<^item> \<open>StringToNumber\<close>: \<^verbatim>\<open>Number(s)\<close> on a string;
  \<^item> \<open>LocalDate\<close>: \<^verbatim>\<open>new Date(y, m, d, h, mi, s).getTime()\<close> on finite arguments,
    in the host's local time;
  \<^item> \<open>FormatTime\<close>: \<^verbatim>\<open>new Date(v).toLocaleString('zh-CN')\<close>;
  \<^item> \<open>FromCharCode\<close>: \<^verbatim>\<open>String.fromCharCode(n)\<close>, the code unit \<open>n\<close> as a string;
  \<^item> \<open>JSON_parse\<close>: \<^verbatim>\<open>JSON.parse(text)\<close>.
\<close>

record runtime =
  StringToNumber :: "string \<Rightarrow> jsnum"
  LocalDate :: "int \<Rightarrow> int \<Rightarrow> int \<Rightarrow> int \<Rightarrow> int \<Rightarrow> int \<Rightarrow> jsnum"
  FormatTime :: "jsval \<Rightarrow> string"
  FromCharCode :: "nat \<Rightarrow> string"
  JSON_parse :: "string \<Rightarrow> parsed"

text \<open>
  \<^verbatim>\<open>ToNumber\<close>, as the operators \<^verbatim>\<open>-\<close>, \<^verbatim>\<open>>\<close> and \<^verbatim>\<open><=\<close> apply it. A plain object
  converts through its string form \<^verbatim>\<open>[object Object]\<close>.
\<close>

fun ToNumber :: "runtime \<Rightarrow> jsval \<Rightarrow> jsnum" where
  "ToNumber rt Undefined = NaN"
| "ToNumber rt Null = Fin 0"
| "ToNumber rt (JBool b) = Fin (if b then 1 else 0)"
| "ToNumber rt (JNum n) = n"
| "ToNumber rt (JStr s) = StringToNumber rt s"
| "ToNumber rt (JObj kvs) = StringToNumber rt ''[object Object]''"

text \<open>
  The Date constructor with six arguments: an argument that is not a finite number
  makes the time value \<open>NaN\<close>; it never throws.
\<close>

fun Date_getTime :: "runtime \<Rightarrow> jsnum \<Rightarrow> jsnum \<Rightarrow> jsnum \<Rightarrow> jsnum \<Rightarrow> jsnum \<Rightarrow> jsnum \<Rightarrow> jsnum" where
  "Date_getTime rt (Fin y) (Fin m) (Fin d) (Fin h) (Fin mi) (Fin s) = LocalDate rt y m d h mi s"
| "Date_getTime rt y m d h mi s = NaN"

text \<open>\<^verbatim>\<open>s.split(c)\<close> with a one-character separator; the result is never empty.\<close>

fun split_on :: "char \<Rightarrow> string \<Rightarrow> string list" where
  "split_on c [] = [[]]"
| "split_on c (x # xs) =
     (if x = c then [] # split_on c xs
      else (case split_on c xs of
              [] \<Rightarrow> [[x]]
            | y # ys \<Rightarrow> (x # y) # ys))"

text \<open>
  An element of an array of numbers taken by destructuring, where it goes into
  arithmetic or into the Date constructor: a missing element is undefined, hence \<open>NaN\<close>.
\<close>

definition elem_num :: "jsnum list \<Rightarrow> nat \<Rightarrow> jsnum" where
  "elem_num xs i = (if i < length xs then xs ! i else NaN)"

text \<open>
  \<^verbatim>\<open>Array.prototype.sort(cmp)\<close>. The language requires the sort to be stable, and for a
  consistent comparator the result is then determined; the model is the stable insertion
  sort. A comparator result that is \<open>NaN\<close> counts as zero.
\<close>

fun sort_insert :: "('a \<Rightarrow> 'a \<Rightarrow> jsnum) \<Rightarrow> 'a \<Rightarrow> 'a list \<Rightarrow> 'a list" where
  "sort_insert cmp x [] = [x]"
| "sort_insert cmp x (y # ys) =
     (if js_gt (cmp x y) (Fin 0) then y # sort_insert cmp x ys else x # y # ys)"

definition Array_sort :: "('a \<Rightarrow> 'a \<Rightarrow> jsnum) \<Rightarrow> 'a list \<Rightarrow> 'a list" where
  "Array_sort cmp xs = foldr (sort_insert cmp) xs []"

section \<open>ble-utils: staleness, lookup, ranking\<close>

definition STALE_TIME_THRESHOLD :: int where
  "STALE_TIME_THRESHOLD = 15000"

definition ACTIVE_WINDOW :: int where
  "ACTIVE_WINDOW = 10000"

text \<open>
  \<^verbatim>\<open>decodeUnicode\<close>: every match of \<^verbatim>\<open>/\\u[\dA-F]{4}/gi\<close> is replaced by the code unit its
  four hexadecimal digits name. The flag \<^verbatim>\<open>i\<close> lets the pattern match \<^verbatim>\<open>\U\<close> too, which
  the inner, case-sensitive replace does not strip: \<^verbatim>\<open>parseInt\<close> then yields \<open>NaN\<close>
  and the code unit is 0.
\<close>

definition hex_digit :: "char \<Rightarrow> nat option" where
  "hex_digit c =
     (let n = (of_char c :: nat) in
      if 48 \<le> n \<and> n \<le> 57 then Some (n - 48)
      else if 97 \<le> n \<and> n \<le> 102 then Some (n - 87)
      else if 65 \<le> n \<and> n \<le> 70 then Some (n - 55)
      else None)"

definition hex4 :: "char \<Rightarrow> char \<Rightarrow> char \<Rightarrow> char \<Rightarrow> nat option" where
  "hex4 a b c d =
     (case (hex_digit a, hex_digit b, hex_digit c, hex_digit d) of
        (Some w, Some x, Some y, Some z) \<Rightarrow> Some (((w * 16 + x) * 16 + y) * 16 + z)
      | _ \<Rightarrow> None)"

fun decodeUnicode_str :: "runtime \<Rightarrow> string \<Rightarrow> string" where
  "decodeUnicode_str rt (b # u # h1 # h2 # h3 # h4 # rest) =
     (case (if b = CHR 0x5C \<and> (u = CHR ''u'' \<or> u = CHR ''U'') then hex4 h1 h2 h3 h4 else None) of
        Some n \<Rightarrow> FromCharCode rt (if u = CHR ''u'' then n else 0) @ decodeUnicode_str rt rest
      | None \<Rightarrow> b # decodeUnicode_str rt (u # h1 # h2 # h3 # h4 # rest))"
| "decodeUnicode_str rt (x # xs) = x # decodeUnicode_str rt xs"
| "decodeUnicode_str rt [] = []"

fun decodeUnicode :: "runtime \<Rightarrow> jsval \<Rightarrow> jsval" where
  "decodeUnicode rt (JStr s) = (if s = [] then JStr s else JStr (decodeUnicode_str rt s))"
| "decodeUnicode rt v = v"

text \<open>
  The body of the \<^verbatim>\<open>try\<close> in \<^verbatim>\<open>parseDetectionTime\<close> on a string; \<open>None\<close> is the
  exception (\<^verbatim>\<open>timePart\<close> undefined when the string has no space).
\<close>

definition parseLastUpdate :: "runtime \<Rightarrow> string \<Rightarrow> jsnum option" where
  "parseLastUpdate rt s =
     (case split_on CHR '' '' s of
        datePart # timePart # _ \<Rightarrow>
          (let ymd = map (StringToNumber rt) (split_on CHR ''/'' datePart);
               hms = map (StringToNumber rt) (split_on CHR '':'' timePart)
           in Some (Date_getTime rt
                      (elem_num ymd 0) (js_sub (elem_num ymd 1) (Fin 1)) (elem_num ymd 2)
                      (elem_num hms 0) (elem_num hms 1) (elem_num hms 2)))
      | _ \<Rightarrow> None)"

text \<open>
  \<^verbatim>\<open>parseDetectionTime\<close>: the result \<open>Null\<close> is the source's null. A truthy
  \<^verbatim>\<open>last_update\<close> that is not a string has no \<^verbatim>\<open>split\<close>: the call throws and the
  catch returns null.
\<close>

definition parseDetectionTime :: "runtime \<Rightarrow> detection option \<Rightarrow> jsval" where
  "parseDetectionTime rt detection =
     (case detection of
        None \<Rightarrow> Null
      | Some d \<Rightarrow>
          if truthy (update_time d) then update_time d
          else if \<not> truthy (last_update d) then Null
          else (case last_update d of
                  JStr s \<Rightarrow> (case parseLastUpdate rt s of Some n \<Rightarrow> JNum n | None \<Rightarrow> Null)
                | _ \<Rightarrow> Null))"

text \<open>
  \<^verbatim>\<open>isDetectionStale\<close> and \<^verbatim>\<open>getValidReceivers\<close> take the threshold as an argument;
  the source's default for it is \<open>STALE_TIME_THRESHOLD\<close>.
\<close>

definition isDetectionStale :: "runtime \<Rightarrow> detection option \<Rightarrow> int \<Rightarrow> int \<Rightarrow> bool" where
  "isDetectionStale rt detection now threshold =
     (let lastUpdateTime = parseDetectionTime rt detection in
      if nullish lastUpdateTime then True
      else js_gt (js_sub (Fin now) (ToNumber rt lastUpdateTime)) (Fin threshold))"



record valid_receiver =
  deviceId :: string
  r_name :: jsval
  r_rssi :: jsval
  r_online :: jsval
  lastUpdateTime :: jsval
  r_last_update :: string

text \<open>The loop of \<^verbatim>\<open>getValidReceivers\<close>: the array \<^verbatim>\<open>receivers\<close> before it is sorted.\<close>

fun collect_receivers :: "runtime \<Rightarrow> (string \<times> detection) list \<Rightarrow> int \<Rightarrow> int \<Rightarrow> valid_receiver list" where
  "collect_receivers rt [] now threshold = []"
| "collect_receivers rt ((devId, d) # rest) now threshold =
     (let lastUpdateTime = parseDetectionTime rt (Some d) in
      if nullish lastUpdateTime then collect_receivers rt rest now threshold
      else
        (let timeSinceUpdate = js_sub (Fin now) (ToNumber rt lastUpdateTime) in
         if js_le timeSinceUpdate (Fin threshold)
         then \<lparr>deviceId = devId,
               r_name = decodeUnicode rt (js_or (receiver_name d) (receiver d)),
               r_rssi = js_coalesce (rssi d) (JNum (Fin (- 100))),
               r_online = js_or (online d) (JBool False),
               lastUpdateTime = lastUpdateTime,
               r_last_update = FormatTime rt lastUpdateTime\<rparr>
              # collect_receivers rt rest now threshold
         else collect_receivers rt rest now threshold))"

definition rssi_order :: "runtime \<Rightarrow> valid_receiver \<Rightarrow> valid_receiver \<Rightarrow> jsnum" where
  "rssi_order rt a b = js_sub (ToNumber rt (r_rssi b)) (ToNumber rt (r_rssi a))"

definition getValidReceivers :: "runtime \<Rightarrow> beacon option \<Rightarrow> int \<Rightarrow> int \<Rightarrow> valid_receiver list" where
  "getValidReceivers rt b now threshold =
     (let dets = (case b of
                    None \<Rightarrow> []
                  | Some bc \<Rightarrow> (case detections bc of None \<Rightarrow> [] | Some ds \<Rightarrow> ds))
      in Array_sort (rssi_order rt) (collect_receivers rt dets now threshold))"

section \<open>The plugin: ingestion\<close>

text \<open>
  One report, the event \<^verbatim>\<open>e\<close> of \<^verbatim>\<open>handleBLEData\<close>: the receiver identity and
  attributes, and \<^verbatim>\<open>e.event_data\<close> with its batch fields and the list of
  observed-object records (absent list: empty). An optional string that is \<open>None\<close>
  is a property the record does not have.
\<close>

record adv_beacon =
  mac :: "string option"
  adv_name :: "string option"
  adv_rssi :: jsval
  adv_online :: jsval

record ble_event =
  device_id :: "string option"
  device_name :: "string option"
  device_type :: "string option"
  ev_batch :: jsval
  ev_total_batches :: jsval
  ev_beacons :: "adv_beacon list"

text \<open>Truthiness of an optional string: absent and empty are falsy.\<close>

fun str_truthy :: "string option \<Rightarrow> bool" where
  "str_truthy None = False"
| "str_truthy (Some s) = (s \<noteq> [])"

text \<open>\<^verbatim>\<open>a || b\<close> where \<open>b\<close> is a string that is there.\<close>

definition str_or :: "string option \<Rightarrow> string \<Rightarrow> string" where
  "str_or a b = (case a of None \<Rightarrow> b | Some s \<Rightarrow> if s = [] then b else s)"

text \<open>
  Own-property order: keys that are array indices (canonical decimal numerals below
  \<open>2^32 - 1\<close>) come first, in ascending numeric order, then the other keys in the order
  they were created. Assigning to an existing key keeps its place.
\<close>

definition is_digit :: "char \<Rightarrow> bool" where
  "is_digit c = (48 \<le> (of_char c :: int) \<and> (of_char c :: int) \<le> 57)"

definition digit_value :: "string \<Rightarrow> int" where
  "digit_value s = foldl (\<lambda>acc c. acc * 10 + (of_char c - 48)) 0 s"

definition array_index :: "string \<Rightarrow> int option" where
  "array_index s =
     (if s \<noteq> [] \<and> list_all is_digit s
         \<and> (s = ''0'' \<or> hd s \<noteq> CHR ''0'') \<and> digit_value s < 4294967295
      then Some (digit_value s) else None)"

fun obj_modify :: "string \<Rightarrow> ('v \<Rightarrow> 'v) \<Rightarrow> (string \<times> 'v) list \<Rightarrow> (string \<times> 'v) list" where
  "obj_modify k f [] = []"
| "obj_modify k f ((k', v) # rest) =
     (if k' = k then (k', f v) # rest else (k', v) # obj_modify k f rest)"

fun obj_insert_index :: "int \<Rightarrow> string \<Rightarrow> 'v \<Rightarrow> (string \<times> 'v) list \<Rightarrow> (string \<times> 'v) list" where
  "obj_insert_index n k v [] = [(k, v)]"
| "obj_insert_index n k v ((k', v') # rest) =
     (case array_index k' of
        Some n' \<Rightarrow> if n' < n then (k', v') # obj_insert_index n k v rest
                   else (k, v) # (k', v') # rest
      | None \<Rightarrow> (k, v) # (k', v') # rest)"

text \<open>
  The properties every object inherits from \<^verbatim>\<open>Object.prototype\<close>. Reading
  \<^verbatim>\<open>obj[k]\<close> for such a name, when the object has no entry \<open>k\<close>, finds the
  inherited value: a function, or for \<^verbatim>\<open>__proto__\<close> the prototype itself. Each of
  them is truthy.
\<close>

definition inherited_names :: "string list" where
  "inherited_names =
     [''constructor'', ''__defineGetter__'', ''__defineSetter__'', ''hasOwnProperty'',
      ''__lookupGetter__'', ''__lookupSetter__'', ''isPrototypeOf'', ''propertyIsEnumerable'',
      ''toString'', ''valueOf'', ''__proto__'', ''toLocaleString'']"

text \<open>
  The process may have given \<^verbatim>\<open>Object.prototype\<close> one more property, \<^verbatim>\<open>name\<close>:
  ingestion itself writes it, at the address \<^verbatim>\<open>__proto__\<close> (see \<open>ingest_beacon\<close>).
  \<open>pn\<close> is that property: \<open>None\<close> while it is not there, else the string it holds,
  which every object without a \<^verbatim>\<open>name\<close> of its own then shows as its name.
  \<open>inherited pn k\<close>: an object without an entry \<open>k\<close> has a truthy \<^verbatim>\<open>obj[k]\<close>.
\<close>

definition inherited :: "string option \<Rightarrow> string \<Rightarrow> bool" where
  "inherited pn k = (k \<in> set inherited_names \<or> (k = ''name'' \<and> str_truthy pn))"

text \<open>
  \<^verbatim>\<open>obj[k] = v\<close> for an object \<open>v\<close>. An entry \<open>k\<close> is replaced where it is.
  Without such an entry, the key \<^verbatim>\<open>__proto__\<close> reaches the setter of
  \<^verbatim>\<open>Object.prototype\<close>: \<open>v\<close> becomes the prototype and no entry is made; every
  other key makes a new entry.
\<close>

definition obj_set :: "string \<Rightarrow> 'v \<Rightarrow> (string \<times> 'v) list \<Rightarrow> (string \<times> 'v) list" where
  "obj_set k v obj =
     (if k \<in> fst ` set obj then obj_modify k (\<lambda>_. v) obj
      else if k = ''__proto__'' then obj
      else (case array_index k of
              Some n \<Rightarrow> obj_insert_index n k v obj
            | None \<Rightarrow> obj @ [(k, v)]))"

text \<open>
  The normalisation of the signal strength; \<open>None\<close> is the TypeError of reading
  \<^verbatim>\<open>average\<close> of null, whose \<^verbatim>\<open>typeof\<close> is \<^verbatim>\<open>'object'\<close> too.
\<close>

definition rssiValue :: "jsval \<Rightarrow> jsval option" where
  "rssiValue r =
     (if typeof_object r
      then (case r of
              JObj kvs \<Rightarrow> Some (js_or (js_or (get_prop kvs ''average'') (get_prop kvs ''current'')) r)
            | _ \<Rightarrow> None)
      else Some r)"

text \<open>\<^verbatim>\<open>beacon.name\<close>: the record's own name, else the inherited one.\<close>

definition beacon_name :: "string option \<Rightarrow> adv_beacon \<Rightarrow> string option" where
  "beacon_name pn b = (case adv_name b of None \<Rightarrow> pn | Some s \<Rightarrow> Some s)"

text \<open>
  What a step of the loop does: it goes on with the data, or it throws, or it throws
  after it has written \<^verbatim>\<open>Object.prototype.name\<close>.
\<close>

datatype 'a step = Done 'a | Throws | Pollutes string

text \<open>
  The body of the loop over the observed-object records, on \<^verbatim>\<open>data\<close>. An exception
  leaves the loop and the function through the outer catch. When the address is not an
  entry of \<^verbatim>\<open>data.beacons\<close> but an inherited name, \<^verbatim>\<open>data.beacons[beacon.mac]\<close> is
  the inherited value and no object is created. For \<^verbatim>\<open>__proto__\<close> that value is
  \<^verbatim>\<open>Object.prototype\<close>, and a truthy name is written to it; in every case the value has
  no \<^verbatim>\<open>detections\<close>, and writing the Detection throws (writing \<^verbatim>\<open>name\<close> of a
  function or of a string throws before).
\<close>

definition ingest_beacon ::
  "string option \<Rightarrow> string \<Rightarrow> string \<Rightarrow> int \<Rightarrow> adv_beacon \<Rightarrow> document \<Rightarrow> document step" where
  "ingest_beacon pn devId recvName now b data =
     (if \<not> str_truthy (mac b) then Done data
      else
        (case (mac b, beacons data) of
           (Some m, Some bs) \<Rightarrow>
             if map_of bs m = None \<and> inherited pn m
             then (case beacon_name pn b of
                     None \<Rightarrow> Throws
                   | Some s \<Rightarrow> if m = ''__proto__'' \<and> s \<noteq> [] then Pollutes s else Throws)
             else
             (let bs1 = (case map_of bs m of
                           None \<Rightarrow> obj_set m \<lparr>name = beacon_name pn b, first_seen = JNum (Fin now),
                                               detections = Some []\<rparr> bs
                         | Some _ \<Rightarrow> bs);
                  bs2 = (if str_truthy (beacon_name pn b)
                         then obj_modify m (\<lambda>bc. bc\<lparr>name := beacon_name pn b\<rparr>) bs1
                         else bs1)
              in (case rssiValue (adv_rssi b) of
                    None \<Rightarrow> Throws
                  | Some rssiVal \<Rightarrow>
                      (case map_of bs2 m of
                         None \<Rightarrow> Throws
                       | Some bc \<Rightarrow>
                           (case detections bc of
                              None \<Rightarrow> Throws
                            | Some ds \<Rightarrow>
                                Done (data\<lparr>beacons := Some (obj_modify m
                                  (\<lambda>bc. bc\<lparr>detections := Some (obj_set devId
                                     \<lparr>receiver_name = JStr recvName,
                                      receiver = Undefined,
                                      rssi = rssiVal,
                                      online = adv_online b,
                                      last_seen = JNum (Fin now),
                                      update_time = JNum (Fin now),
                                      last_update = Undefined\<rparr> ds)\<rparr>) bs2)\<rparr>)))))
         | _ \<Rightarrow> Throws))"

fun ingest_loop ::
  "string option \<Rightarrow> string \<Rightarrow> string \<Rightarrow> int \<Rightarrow> adv_beacon list \<Rightarrow> document \<Rightarrow> document step" where
  "ingest_loop pn devId recvName now [] data = Done data"
| "ingest_loop pn devId recvName now (b # rest) data =
     (case ingest_beacon pn devId recvName now b data of
        Done data' \<Rightarrow> ingest_loop pn devId recvName now rest data'
      | Throws \<Rightarrow> Throws
      | Pollutes s \<Rightarrow> Pollutes s)"

text \<open>
  \<^verbatim>\<open>handleBLEData\<close> on the document that \<^verbatim>\<open>loadData\<close> returned, at \<^verbatim>\<open>Date.now()\<close>,
  in a process whose \<^verbatim>\<open>Object.prototype.name\<close> is \<open>pn\<close>: \<open>Ignored\<close> is the early
  return, \<open>Failed\<close> the outer catch (nothing is written), \<open>Polluted s\<close> the outer
  catch after \<^verbatim>\<open>Object.prototype.name\<close> was set to \<open>s\<close>, \<open>Saved d\<close> the call
  \<^verbatim>\<open>saveData(d)\<close>.
\<close>

datatype outcome = Ignored | Failed | Polluted string | Saved document

definition handleBLEData :: "string option \<Rightarrow> ble_event \<Rightarrow> int \<Rightarrow> document \<Rightarrow> outcome" where
  "handleBLEData pn e now data =
     (case device_id e of
        None \<Rightarrow> Ignored
      | Some devId \<Rightarrow>
          if devId = [] \<or> ev_beacons e = [] then Ignored
          else
            (case devices data of
               None \<Rightarrow> Failed
             | Some devs \<Rightarrow>
                 (let data1 = data\<lparr>devices := Some (obj_set devId
                        \<lparr>dev_name = str_or (device_name e) devId,
                         dev_type = str_or (device_type e) ''ESP32'',
                         update = JNum (Fin now),
                         batch = js_or (ev_batch e) (JNum (Fin 1)),
                         total_batches = js_or (ev_total_batches e) (JNum (Fin 1))\<rparr> devs)\<rparr>
                  in (case ingest_loop pn devId (str_or (device_name e) devId) now (ev_beacons e) data1 of
                        Done data' \<Rightarrow> Saved data'
                      | Throws \<Rightarrow> Failed
                      | Pollutes s \<Rightarrow> Polluted s))))"

section \<open>The plugin: reaper\<close>









section \<open>The plugin: loading\<close>

text \<open>
  \<^verbatim>\<open>decodeObject\<close>: every string value is decoded, keys are not. The copy is built
  by assignment, so an entry \<^verbatim>\<open>__proto__\<close> of a value does not become an entry of the
  copy.
\<close>

primrec decodeObject :: "runtime \<Rightarrow> jsval \<Rightarrow> jsval" where
  "decodeObject rt Undefined = Undefined"
| "decodeObject rt Null = Null"
| "decodeObject rt (JBool b) = JBool b"
| "decodeObject rt (JNum n) = JNum n"
| "decodeObject rt (JStr s) = decodeUnicode rt (JStr s)"
| "decodeObject rt (JObj kvs) =
     JObj (filter (\<lambda>(k, v). k \<noteq> ''__proto__'') (map (map_prod id (decodeObject rt)) kvs))"

definition decode_detection :: "runtime \<Rightarrow> detection \<Rightarrow> detection" where
  "decode_detection rt d =
     \<lparr>receiver_name = decodeObject rt (receiver_name d),
      receiver = decodeObject rt (receiver d),
      rssi = decodeObject rt (rssi d),
      online = decodeObject rt (online d),
      last_seen = decodeObject rt (last_seen d),
      update_time = decodeObject rt (update_time d),
      last_update = decodeObject rt (last_update d)\<rparr>"

definition decode_beacon :: "runtime \<Rightarrow> beacon \<Rightarrow> beacon" where
  "decode_beacon rt b =
     \<lparr>name = map_option (decodeUnicode_str rt) (name b),
      first_seen = decodeObject rt (first_seen b),
      detections = map_option (map (map_prod id (decode_detection rt))) (detections b)\<rparr>"

definition decode_device :: "runtime \<Rightarrow> device \<Rightarrow> device" where
  "decode_device rt d =
     \<lparr>dev_name = decodeUnicode_str rt (dev_name d),
      dev_type = decodeUnicode_str rt (dev_type d),
      update = decodeObject rt (update d),
      batch = decodeObject rt (batch d),
      total_batches = decodeObject rt (total_batches d)\<rparr>"

definition decode_document :: "runtime \<Rightarrow> document \<Rightarrow> document" where
  "decode_document rt doc =
     \<lparr>devices = map_option (map (map_prod id (decode_device rt))) (devices doc),
      beacons = map_option (map (map_prod id (decode_beacon rt))) (beacons doc)\<rparr>"

text \<open>
  \<^verbatim>\<open>loadData\<close> on the file (\<open>None\<close>: reading it fails). Every exception inside the
  \<^verbatim>\<open>try\<close> ends in the catch: the syntax error of \<^verbatim>\<open>JSON.parse\<close>, reading
  \<^verbatim>\<open>devices\<close> of null, and, the module being strict code, creating a property on a
  primitive.
\<close>

definition loadData :: "runtime \<Rightarrow> string option \<Rightarrow> document" where
  "loadData rt file =
     (case file of
        None \<Rightarrow> empty_document
      | Some content \<Rightarrow>
          (case JSON_parse rt content of
             ParseError \<Rightarrow> empty_document
           | ParsedNull \<Rightarrow> empty_document
           | ParsedPrimitive \<Rightarrow> empty_document
           | ParsedDoc doc \<Rightarrow>
               (let decoded = decode_document rt doc in
                \<lparr>devices = (case devices decoded of None \<Rightarrow> Some [] | Some ds \<Rightarrow> Some ds),
                 beacons = (case beacons decoded of None \<Rightarrow> Some [] | Some bs \<Rightarrow> Some bs)\<rparr>)))"

section \<open>The plugin: from one call to the next\<close>

text \<open>
  What \<^verbatim>\<open>JSON.parse\<close> reads back from the text \<^verbatim>\<open>JSON.stringify\<close> wrote for a
  value: a property that is undefined is not written, \<open>NaN\<close> is written as null.
\<close>

primrec json_value :: "jsval \<Rightarrow> jsval" where
  "json_value Undefined = Undefined"
| "json_value Null = Null"
| "json_value (JBool b) = JBool b"
| "json_value (JNum n) = (case n of Fin i \<Rightarrow> JNum (Fin i) | NaN \<Rightarrow> Null)"
| "json_value (JStr s) = JStr s"
| "json_value (JObj kvs) =
     JObj (filter (\<lambda>(k, v). v \<noteq> Undefined) (map (map_prod id json_value) kvs))"

definition saved_detection :: "detection \<Rightarrow> detection" where
  "saved_detection d =
     \<lparr>receiver_name = json_value (receiver_name d),
      receiver = json_value (receiver d),
      rssi = json_value (rssi d),
      online = json_value (online d),
      last_seen = json_value (last_seen d),
      update_time = json_value (update_time d),
      last_update = json_value (last_update d)\<rparr>"

definition saved_beacon :: "beacon \<Rightarrow> beacon" where
  "saved_beacon b =
     \<lparr>name = name b,
      first_seen = json_value (first_seen b),
      detections = map_option (map (map_prod id saved_detection)) (detections b)\<rparr>"

definition saved_device :: "device \<Rightarrow> device" where
  "saved_device d =
     \<lparr>dev_name = dev_name d,
      dev_type = dev_type d,
      update = json_value (update d),
      batch = json_value (batch d),
      total_batches = json_value (total_batches d)\<rparr>"

text \<open>The document in the file after \<^verbatim>\<open>saveData(doc)\<close>, the write taken to succeed.\<close>

definition saved_document :: "document \<Rightarrow> document" where
  "saved_document doc =
     \<lparr>devices = map_option (map (map_prod id saved_device)) (devices doc),
      beacons = map_option (map (map_prod id saved_beacon)) (beacons doc)\<rparr>"

text \<open>
  \<^verbatim>\<open>loadData\<close> on a file that holds the document \<open>doc\<close>: the branch of
  \<open>loadData\<close> for a parsed object.
\<close>

definition load_document :: "runtime \<Rightarrow> document \<Rightarrow> document" where
  "load_document rt doc =
     (let decoded = decode_document rt doc in
      \<lparr>devices = (case devices decoded of None \<Rightarrow> Some [] | Some ds \<Rightarrow> Some ds),
       beacons = (case beacons decoded of None \<Rightarrow> Some [] | Some bs \<Rightarrow> Some bs)\<rparr>)"

text \<open>
  One report arrives: the state is the document in the file together with
  \<^verbatim>\<open>Object.prototype.name\<close>. \<^verbatim>\<open>handleBLEData\<close> loads the file, and the file changes
  only when it saves.
\<close>

definition ingest :: "runtime \<Rightarrow> ble_event \<Rightarrow> int \<Rightarrow> document \<times> string option \<Rightarrow> document \<times> string option" where
  "ingest rt e now p =
     (case handleBLEData (snd p) e now (load_document rt (fst p)) of
        Saved d \<Rightarrow> (saved_document d, snd p)
      | Polluted s \<Rightarrow> (fst p, Some s)
      | _ \<Rightarrow> p)"

fun ingest_all :: "runtime \<Rightarrow> (ble_event \<times> int) list \<Rightarrow> document \<times> string option \<Rightarrow> document \<times> string option" where
  "ingest_all rt [] p = p"
| "ingest_all rt ((e, now) # rest) p = ingest_all rt rest (ingest rt e now p)"

section \<open>A host for running the model\<close>

text \<open>
  A host on which the model is run on concrete inputs: the time zone is UTC,
  \<open>StringToNumber\<close> reads the empty string and unsigned decimal numerals and gives
  \<open>NaN\<close> on every other string, code units below 256 are single characters, times are
  not rendered, and \<^verbatim>\<open>JSON.parse\<close> knows the texts \<^verbatim>\<open>{}\<close> and \<^verbatim>\<open>null\<close> only.
\<close>

definition decimal_number :: "string \<Rightarrow> jsnum" where
  "decimal_number s =
     (if list_all is_digit s
      then Fin (digit_value s) else NaN)"

definition days_from_civil :: "int \<Rightarrow> int \<Rightarrow> int \<Rightarrow> int" where
  "days_from_civil y m d =
     (let y' = (if m \<le> 2 then y - 1 else y);
          era = y' div 400;
          yoe = y' - era * 400;
          doy = (153 * (if m > 2 then m - 3 else m + 9) + 2) div 5 + d - 1;
          doe = yoe * 365 + yoe div 4 - yoe div 100 + doy
      in era * 146097 + doe - 719468)"

definition utc_date :: "int \<Rightarrow> int \<Rightarrow> int \<Rightarrow> int \<Rightarrow> int \<Rightarrow> int \<Rightarrow> jsnum" where
  "utc_date y m d h mi s =
     (let yr = (if 0 \<le> y \<and> y \<le> 99 then 1900 + y else y);
          days = days_from_civil (yr + m div 12) (m mod 12 + 1) 1 + (d - 1);
          ms = (((days * 24 + h) * 60 + mi) * 60 + s) * 1000
      in if \<bar>ms\<bar> \<le> 8640000000000000 then Fin ms else NaN)"

definition utc_host :: runtime where
  "utc_host =
     \<lparr>StringToNumber = decimal_number,
      LocalDate = utc_date,
      FormatTime = (\<lambda>v. []),
      FromCharCode = (\<lambda>n. if n < 256 then [char_of n] else []),
      JSON_parse = (\<lambda>text. if text = ''{}'' then ParsedDoc \<lparr>devices = None, beacons = None\<rparr>
                            else if text = ''null'' then ParsedNull else ParseError)\<rparr>"

section \<open>Notions of the specification\<close>

text \<open>
  A Detection is fresh at a threshold when its timestamp resolves to a number \<open>t\<close>
  with \<open>now - t \<le> threshold\<close>; one whose timestamp does not resolve is not.
\<close>

definition fresh :: "runtime \<Rightarrow> detection \<Rightarrow> int \<Rightarrow> int \<Rightarrow> bool" where
  "fresh rt d now threshold =
     (case parseDetectionTime rt (Some d) of
        Undefined \<Rightarrow> False
      | Null \<Rightarrow> False
      | v \<Rightarrow> (case ToNumber rt v of Fin t \<Rightarrow> now - t \<le> threshold | NaN \<Rightarrow> False))"

text \<open>The item the ranking returns for the Detection \<open>d\<close> of receiver \<open>k\<close>.\<close>

definition receiver_item :: "runtime \<Rightarrow> string \<Rightarrow> detection \<Rightarrow> valid_receiver" where
  "receiver_item rt k d =
     \<lparr>deviceId = k,
      r_name = decodeUnicode rt (if truthy (receiver_name d) then receiver_name d else receiver d),
      r_rssi = (if nullish (rssi d) then JNum (Fin (- 100)) else rssi d),
      r_online = (if truthy (online d) then online d else JBool False),
      lastUpdateTime = parseDetectionTime rt (Some d),
      r_last_update = FormatTime rt (parseDetectionTime rt (Some d))\<rparr>"

text \<open>The signal strength of an item as a number.\<close>

definition strength :: "runtime \<Rightarrow> valid_receiver \<Rightarrow> int" where
  "strength rt r = (case ToNumber rt (r_rssi r) of Fin n \<Rightarrow> n | NaN \<Rightarrow> 0)"



section \<open>Notions of the specification: ingestion\<close>

text \<open>
  The Detection mapping of the object at address \<open>m\<close>; empty when there is none.
\<close>

definition detections_of :: "document \<Rightarrow> string \<Rightarrow> (string \<times> detection) list" where
  "detections_of doc m =
     (case beacons doc of
        None \<Rightarrow> []
      | Some bs \<Rightarrow>
          (case map_of bs m of
             None \<Rightarrow> []
           | Some b \<Rightarrow> (case detections b of None \<Rightarrow> [] | Some ds \<Rightarrow> ds)))"

text \<open>
  The Detection that ingestion writes for a record with normalised strength
  \<open>rssiVal\<close>.
\<close>

definition stored_detection :: "string \<Rightarrow> int \<Rightarrow> jsval \<Rightarrow> jsval \<Rightarrow> detection" where
  "stored_detection recvName now rssiVal onl =
     \<lparr>receiver_name = JStr recvName, receiver = Undefined, rssi = rssiVal, online = onl,
      last_seen = JNum (Fin now), update_time = JNum (Fin now), last_update = Undefined\<rparr>"

text \<open>
  At most one Detection per receiver identity, in the Detection mapping of every object.
\<close>

definition one_per_receiver :: "document \<Rightarrow> bool" where
  "one_per_receiver doc =
     list_all (\<lambda>(m, b). case detections b of None \<Rightarrow> True | Some ds \<Rightarrow> distinct (map fst ds))
       (case beacons doc of None \<Rightarrow> [] | Some bs \<Rightarrow> bs)"

text \<open>
  A Detection with its two timestamps blanked, to compare Detections up to their timestamps.
\<close>

definition without_timestamps :: "detection \<Rightarrow> detection" where
  "without_timestamps det = det\<lparr>last_seen := Undefined, update_time := Undefined\<rparr>"

text \<open>No entry of the document has the key \<^verbatim>\<open>__proto__\<close>.\<close>

definition proto_free :: "document \<Rightarrow> bool" where
  "proto_free doc =
     (''__proto__'' \<notin> fst ` set (case devices doc of None \<Rightarrow> [] | Some ds \<Rightarrow> ds)
      \<and> ''__proto__'' \<notin> fst ` set (case beacons doc of None \<Rightarrow> [] | Some bs \<Rightarrow> bs)
      \<and> list_all (\<lambda>(m, b). ''__proto__'' \<notin> fst ` set (case detections b of None \<Rightarrow> [] | Some ds \<Rightarrow> ds))
            (case beacons doc of None \<Rightarrow> [] | Some bs \<Rightarrow> bs))"

text \<open>
  A document in the persisted shape: both mappings are there and every object has a
  Detection mapping.
\<close>

definition well_shaped :: "document \<Rightarrow> bool" where
  "well_shaped doc =
     (devices doc \<noteq> None \<and>
      (case beacons doc of
         None \<Rightarrow> False
       | Some bs \<Rightarrow> list_all (\<lambda>(m, b). detections b \<noteq> None) bs))"

text \<open>No observed-object record with an address carries a null signal strength.\<close>

definition no_null_rssi :: "ble_event \<Rightarrow> bool" where
  "no_null_rssi e = list_all (\<lambda>b. adv_rssi b \<noteq> Null) (filter (\<lambda>b. str_truthy (mac b)) (ev_beacons e))"

text \<open>
  No observed-object record has an address that names an inherited property.
\<close>

definition plain_addresses :: "string option \<Rightarrow> ble_event \<Rightarrow> bool" where
  "plain_addresses pn e =
     list_all (\<lambda>b. case mac b of None \<Rightarrow> True | Some m \<Rightarrow> \<not> inherited pn m) (ev_beacons e)"

section \<open>The key structure of the Registry\<close>

fun key_insert_index :: "int \<Rightarrow> string \<Rightarrow> string list \<Rightarrow> string list" where
  "key_insert_index n k [] = [k]"
| "key_insert_index n k (k' # rest) =
     (case array_index k' of
        Some n' \<Rightarrow> if n' < n then k' # key_insert_index n k rest else k # k' # rest
      | None \<Rightarrow> k # k' # rest)"

text \<open>The own keys of an object after an assignment to the key \<open>k\<close>.\<close>

definition key_set :: "string \<Rightarrow> string list \<Rightarrow> string list" where
  "key_set k ks =
     (if k \<in> set ks then ks
      else if k = ''__proto__'' then ks
      else (case array_index k of Some n \<Rightarrow> key_insert_index n k ks | None \<Rightarrow> ks @ [k]))"

text \<open>
  The receiver identities in the Detection mapping of the object at \<open>m\<close>:
  \<open>None\<close> when there is no such object, \<open>Some None\<close> when the object
  has no Detection mapping.
\<close>

definition keys_at :: "document \<Rightarrow> string \<Rightarrow> string list option option" where
  "keys_at doc m =
     (case beacons doc of
        None \<Rightarrow> None
      | Some bs \<Rightarrow> map_option (\<lambda>b. map_option (map fst) (detections b)) (map_of bs m))"

text \<open>
  The key structure of a document: whether it has the two mappings, and the receiver
  identities per object. It decides which path ingestion takes.
\<close>

type_synonym keyshape = "bool \<times> bool \<times> (string \<Rightarrow> string list option option)"

definition shape_of :: "document \<Rightarrow> keyshape" where
  "shape_of d = (devices d \<noteq> None, beacons d \<noteq> None, keys_at d)"

text \<open>
  Ingestion of one record, of a whole list and of a report, on the key structure.
\<close>

definition shape_beacon :: "string option \<Rightarrow> string \<Rightarrow> adv_beacon \<Rightarrow> keyshape \<Rightarrow> keyshape option" where
  "shape_beacon pn devId b s =
     (case s of (hasd, hasb, f) \<Rightarrow>
        (case mac b of
           None \<Rightarrow> Some s
         | Some m \<Rightarrow>
             if m = [] then Some s
             else if \<not> hasb then None
             else if rssiValue (adv_rssi b) = None then None
             else (case f m of
                     None \<Rightarrow> if inherited pn m then None
                             else Some (hasd, hasb, f(m := Some (Some (key_set devId []))))
                   | Some None \<Rightarrow> None
                   | Some (Some ks) \<Rightarrow> Some (hasd, hasb, f(m := Some (Some (key_set devId ks)))))))"

fun shape_loop :: "string option \<Rightarrow> string \<Rightarrow> adv_beacon list \<Rightarrow> keyshape \<Rightarrow> keyshape option" where
  "shape_loop pn devId [] s = Some s"
| "shape_loop pn devId (b # rest) s =
     (case shape_beacon pn devId b s of None \<Rightarrow> None | Some s' \<Rightarrow> shape_loop pn devId rest s')"

definition shape_handle :: "string option \<Rightarrow> ble_event \<Rightarrow> keyshape \<Rightarrow> keyshape option" where
  "shape_handle pn e s =
     (case device_id e of
        None \<Rightarrow> None
      | Some k \<Rightarrow>
          if k = [] \<or> ev_beacons e = [] then None
          else (case s of (hasd, hasb, f) \<Rightarrow>
                  if hasd then shape_loop pn k (ev_beacons e) (True, hasb, f) else None))"

text \<open>
  The record \<open>b\<close> has been ingested from receiver \<open>k\<close>: its object is there with a
  Detection of \<open>k\<close>, or \<open>k\<close> is the key that makes no entry.
\<close>

definition covered :: "string \<Rightarrow> keyshape \<Rightarrow> adv_beacon \<Rightarrow> bool" where
  "covered k s b =
     (case mac b of
        None \<Rightarrow> True
      | Some m \<Rightarrow>
          m = [] \<or> (fst (snd s) \<and> rssiValue (adv_rssi b) \<noteq> None
                    \<and> (case snd (snd s) m of
                         Some (Some ks) \<Rightarrow> k \<in> set ks \<or> k = ''__proto__''
                       | _ \<Rightarrow> False)))"

section \<open>Staleness and ranking\<close>

lemma js_le_sub_Fin: "js_le (js_sub (Fin a) n) (Fin c) = (case n of Fin b \<Rightarrow> a - b \<le> c | NaN \<Rightarrow> False)"
  by (cases n) simp_all


lemma collect_receivers_filter:
  "collect_receivers rt ds now threshold =
     map (\<lambda>(k, d). receiver_item rt k d) (filter (\<lambda>(k, d). fresh rt d now threshold) ds)"
proof (induction ds)
  case Nil
  show ?case by simp
next
  case (Cons p ds)
  obtain k d where p: "p = (k, d)" by (cases p)
  show ?case
    using Cons.IH
    by (cases "parseDetectionTime rt (Some d)")
       (simp_all add: p fresh_def receiver_item_def js_or_def js_coalesce_def js_le_sub_Fin Let_def
             split: jsnum.splits)
qed

lemma set_sort_insert: "set (sort_insert cmp x ys) = insert x (set ys)"
  by (induction ys) auto

lemma set_Array_sort: "set (Array_sort cmp xs) = set xs"
  by (induction xs) (simp_all add: Array_sort_def set_sort_insert)

lemma length_sort_insert: "length (sort_insert cmp x ys) = Suc (length ys)"
  by (induction ys) auto

lemma length_Array_sort: "length (Array_sort cmp xs) = length xs"
  by (induction xs) (simp_all add: Array_sort_def length_sort_insert)

lemma sort_insert_insort:
  assumes "\<forall>y \<in> set (x # ys). \<exists>n. key y = Fin n"
  shows "sort_insert (\<lambda>a b. js_sub (key b) (key a)) x ys
         = insort_key (\<lambda>r. - (case key r of Fin n \<Rightarrow> n | NaN \<Rightarrow> 0)) x ys"
  using assms
proof (induction ys)
  case Nil
  show ?case by simp
next
  case (Cons y ys)
  from Cons.prems obtain a b where "key x = Fin a" "key y = Fin b" by auto
  with Cons show ?case by auto
qed

lemma Array_sort_sort_key:
  assumes "\<forall>y \<in> set xs. \<exists>n. key y = Fin n"
  shows "Array_sort (\<lambda>a b. js_sub (key b) (key a)) xs
         = sort_key (\<lambda>r. - (case key r of Fin n \<Rightarrow> n | NaN \<Rightarrow> 0)) xs"
  using assms
proof (induction xs)
  case Nil
  show ?case by (simp add: Array_sort_def)
next
  case (Cons x xs)
  have "Array_sort (\<lambda>a b. js_sub (key b) (key a)) (x # xs)
        = sort_insert (\<lambda>a b. js_sub (key b) (key a)) x (Array_sort (\<lambda>a b. js_sub (key b) (key a)) xs)"
    by (simp add: Array_sort_def)
  also have "\<dots> = sort_insert (\<lambda>a b. js_sub (key b) (key a)) x
                     (sort_key (\<lambda>r. - (case key r of Fin n \<Rightarrow> n | NaN \<Rightarrow> 0)) xs)"
    using Cons by simp
  also have "\<dots> = insort_key (\<lambda>r. - (case key r of Fin n \<Rightarrow> n | NaN \<Rightarrow> 0)) x
                     (sort_key (\<lambda>r. - (case key r of Fin n \<Rightarrow> n | NaN \<Rightarrow> 0)) xs)"
    using Cons.prems by (intro sort_insert_insort) simp
  finally show ?case by simp
qed

lemma getValidReceivers_sort_key:
  assumes "\<forall>(k, d) \<in> set ds. fresh rt d now threshold \<longrightarrow> nullish (rssi d) \<or> (\<exists>n. rssi d = JNum (Fin n))"
    and "detections b = Some ds"
  shows "getValidReceivers rt (Some b) now threshold
         = sort_key (\<lambda>r. - strength rt r)
             (map (\<lambda>(k, d). receiver_item rt k d) (filter (\<lambda>(k, d). fresh rt d now threshold) ds))"
proof -
  let ?items = "map (\<lambda>(k, d). receiver_item rt k d) (filter (\<lambda>(k, d). fresh rt d now threshold) ds)"
  have num: "\<forall>r \<in> set ?items. \<exists>n. ToNumber rt (r_rssi r) = Fin n"
    using assms(1) by (auto simp: receiver_item_def)
  have "getValidReceivers rt (Some b) now threshold
        = Array_sort (\<lambda>a b. js_sub (ToNumber rt (r_rssi b)) (ToNumber rt (r_rssi a))) ?items"
    by (simp add: getValidReceivers_def assms(2) collect_receivers_filter rssi_order_def[abs_def])
  also have "\<dots> = sort_key (\<lambda>r. - (case ToNumber rt (r_rssi r) of Fin n \<Rightarrow> n | NaN \<Rightarrow> 0)) ?items"
    using num by (rule Array_sort_sort_key)
  finally show ?thesis by (simp add: strength_def[abs_def])
qed

lemma isDetectionStale_Fin:
  "parseDetectionTime rt (Some d) = JNum (Fin t) \<Longrightarrow>
   isDetectionStale rt (Some d) now threshold = (now - t > threshold)"
  by (simp add: isDetectionStale_def)

lemma fresh_Fin:
  "parseDetectionTime rt (Some d) = JNum (Fin t) \<Longrightarrow> fresh rt d now threshold = (now - t \<le> threshold)"
  by (simp add: fresh_def)

lemma deviceId_receiver_item: "deviceId (receiver_item rt k d) = k"
  by (simp add: receiver_item_def)

lemma map_deviceId_items: "map deviceId (map (\<lambda>(k, d). receiver_item rt k d) xs) = map fst xs"
  by (induction xs) (auto simp: deviceId_receiver_item)

lemma deviceId_getValidReceivers:
  assumes "detections b = Some ds"
  shows "deviceId ` set (getValidReceivers rt (Some b) now threshold)
           = fst ` set (filter (\<lambda>(k, d). fresh rt d now threshold) ds)"
proof -
  have "deviceId ` set (getValidReceivers rt (Some b) now threshold)
        = set (map deviceId (map (\<lambda>(k, d). receiver_item rt k d)
                 (filter (\<lambda>(k, d). fresh rt d now threshold) ds)))"
    by (simp only: getValidReceivers_def assms Let_def option.case set_Array_sort
          collect_receivers_filter set_map)
  then show ?thesis
    by (simp only: map_deviceId_items set_map)
qed

lemma deviceId_getValidReceivers_iff:
  assumes "parseDetectionTime rt (Some d) = JNum (Fin t)"
    and "detections b = Some ds" and "(k, d) \<in> set ds" and "distinct (map fst ds)"
  shows "(k \<in> deviceId ` set (getValidReceivers rt (Some b) now threshold)) = (now - t \<le> threshold)"
proof
  have uniq: "d' = d" if "(k, d') \<in> set ds" for d'
    using that assms(3,4) by (rule_tac eq_key_imp_eq_value)
  assume "k \<in> deviceId ` set (getValidReceivers rt (Some b) now threshold)"
  then obtain d' where "(k, d') \<in> set ds" "fresh rt d' now threshold"
    unfolding deviceId_getValidReceivers[OF assms(2)] by auto
  with uniq fresh_Fin[OF assms(1)] show "now - t \<le> threshold" by blast
next
  assume "now - t \<le> threshold"
  with fresh_Fin[OF assms(1)] assms(3)
  have "(k, d) \<in> set (filter (\<lambda>(k, d). fresh rt d now threshold) ds)" by simp
  then show "k \<in> deviceId ` set (getValidReceivers rt (Some b) now threshold)"
    unfolding deviceId_getValidReceivers[OF assms(2)] by force
qed

lemma split_space_example:
  "split_on CHR '' '' ''2025-11-07 20:32:24'' = [''2025-11-07'', ''20:32:24'']"
  by simp

lemma split_slash_example: "split_on CHR ''/'' ''2025-11-07'' = [''2025-11-07'']"
  by simp

lemma parseLastUpdate_dashes: "parseLastUpdate rt ''2025-11-07 20:32:24'' = Some NaN"
  by (simp add: parseLastUpdate_def split_space_example split_slash_example elem_num_def
           del: split_on.simps)

text \<open>
  C2. A detection without \<^verbatim>\<open>update_time\<close> whose \<^verbatim>\<open>last_update\<close> is a date written
  with dashes, \<^verbatim>\<open>2025-11-07 20:32:24\<close>: the date part has no \<^verbatim>\<open>/\<close>, so the month is
  undefined and the Date is invalid. No exception is raised, \<^verbatim>\<open>parseDetectionTime\<close>
  returns \<open>NaN\<close> instead of null, and \<^verbatim>\<open>isDetectionStale\<close> answers false for every
  host, time and threshold: the detection is not classified stale.
\<close>

theorem isDetectionStale_unparsable_date_not_stale:
  "parseDetectionTime rt (Some \<lparr>receiver_name = n, receiver = r, rssi = s, online = on,
       last_seen = ls, update_time = Undefined, last_update = JStr ''2025-11-07 20:32:24''\<rparr>) = JNum NaN
   \<and> isDetectionStale rt (Some \<lparr>receiver_name = n, receiver = r, rssi = s, online = on,
       last_seen = ls, update_time = Undefined, last_update = JStr ''2025-11-07 20:32:24''\<rparr>) now threshold = False"
  by (simp add: isDetectionStale_def parseDetectionTime_def parseLastUpdate_dashes
           del: split_on.simps)

text \<open>
  C6. For a detection whose timestamp resolves to the number \<open>t\<close>, at the age
  \<open>now - t = threshold\<close> it is not stale and its receiver is among the valid receivers;
  at the age \<open>threshold + 1\<close> it is stale and its receiver is not among them.
\<close>

theorem staleness_boundary_inclusive:
  assumes "parseDetectionTime rt (Some d) = JNum (Fin t)"
    and "detections b = Some ds" and "(k, d) \<in> set ds" and "distinct (map fst ds)"
  shows "\<not> isDetectionStale rt (Some d) (t + threshold) threshold
       \<and> k \<in> deviceId ` set (getValidReceivers rt (Some b) (t + threshold) threshold)
       \<and> isDetectionStale rt (Some d) (t + threshold + 1) threshold
       \<and> k \<notin> deviceId ` set (getValidReceivers rt (Some b) (t + threshold + 1) threshold)"
  unfolding isDetectionStale_Fin[OF assms(1)] deviceId_getValidReceivers_iff[OF assms]
  by simp

theorem staleness_boundary_inclusive_witness:
  "parseDetectionTime utc_host (Some \<lparr>receiver_name = JStr ''Hall'', receiver = Undefined,
      rssi = JNum (Fin (- 60)), online = JBool True, last_seen = Undefined,
      update_time = Undefined, last_update = JStr ''1970/1/1 0:0:1''\<rparr>) = JNum (Fin 1000)
   \<and> \<not> isDetectionStale utc_host (Some \<lparr>receiver_name = JStr ''Hall'', receiver = Undefined,
      rssi = JNum (Fin (- 60)), online = JBool True, last_seen = Undefined,
      update_time = Undefined, last_update = JStr ''1970/1/1 0:0:1''\<rparr>) 16000 15000
   \<and> isDetectionStale utc_host (Some \<lparr>receiver_name = JStr ''Hall'', receiver = Undefined,
      rssi = JNum (Fin (- 60)), online = JBool True, last_seen = Undefined,
      update_time = Undefined, last_update = JStr ''1970/1/1 0:0:1''\<rparr>) 16001 15000
   \<and> ''R1'' \<in> deviceId ` set (getValidReceivers utc_host
        (Some \<lparr>name = Some ''X'', first_seen = JNum (Fin 1000), detections = Some [(''R1'',
           \<lparr>receiver_name = JStr ''Hall'', receiver = Undefined,
            rssi = JNum (Fin (- 60)), online = JBool True, last_seen = Undefined,
            update_time = Undefined, last_update = JStr ''1970/1/1 0:0:1''\<rparr>)]\<rparr>) 16000 15000)
   \<and> ''R1'' \<notin> deviceId ` set (getValidReceivers utc_host
        (Some \<lparr>name = Some ''X'', first_seen = JNum (Fin 1000), detections = Some [(''R1'',
           \<lparr>receiver_name = JStr ''Hall'', receiver = Undefined,
            rssi = JNum (Fin (- 60)), online = JBool True, last_seen = Undefined,
            update_time = Undefined, last_update = JStr ''1970/1/1 0:0:1''\<rparr>)]\<rparr>) 16001 15000)"
proof -
  let ?d = "\<lparr>receiver_name = JStr ''Hall'', receiver = Undefined,
      rssi = JNum (Fin (- 60)), online = JBool True, last_seen = Undefined,
      update_time = Undefined, last_update = JStr ''1970/1/1 0:0:1''\<rparr>"
  let ?b = "\<lparr>name = Some ''X'', first_seen = JNum (Fin 1000), detections = Some [(''R1'', ?d)]\<rparr>"
  have h: "parseDetectionTime utc_host (Some ?d) = JNum (Fin 1000)"
    by code_simp
  show ?thesis
    using h staleness_boundary_inclusive [of utc_host ?d 1000 ?b "[(''R1'', ?d)]" "''R1''" 15000]
    by simp
qed

lemma strength_items_numeric:
  assumes "\<forall>(k, d) \<in> set ds. fresh rt d now threshold \<longrightarrow> nullish (rssi d) \<or> (\<exists>n. rssi d = JNum (Fin n))"
  shows "\<forall>r \<in> set (map (\<lambda>(k, d). receiver_item rt k d) (filter (\<lambda>(k, d). fresh rt d now threshold) ds)).
           \<exists>n. ToNumber rt (r_rssi r) = Fin n"
  using assms by (auto simp: receiver_item_def)

lemma sorted_desc_sort_key:
  "sorted_wrt (\<lambda>a c. f c \<le> (f a :: int)) (sort_key (\<lambda>r. - f r) xs)"
proof -
  have "sorted (map (\<lambda>r. - f r) (sort_key (\<lambda>r. - f r) xs))"
    by (rule sorted_sort_key)
  then show ?thesis
    by (simp add: sorted_map)
qed

lemma stable_sort_key_neg:
  "filter (\<lambda>r. f r = (n::int)) (sort_key (\<lambda>r. - f r) xs) = filter (\<lambda>r. f r = n) xs"
proof -
  have "filter (\<lambda>r. - f r = - n) (sort_key (\<lambda>r. - f r) xs) = filter (\<lambda>r. - f r = - n) xs"
    by (rule sort_key_stable)
  then show ?thesis by simp
qed

text \<open>
  C7, as the claim states it: an object with three fresh Detections, the second of which
  holds a structure as its signal strength (ingestion stores one when the structure has
  neither reading). The comparison with a structure is \<open>NaN\<close>, the list stays as it
  is, and \<open>R3\<close> with strength \<open>-50\<close> comes after \<open>R1\<close> with strength
  \<open>-70\<close>: the result is not in descending order of strength.
\<close>

theorem ranked_receivers_structured_strength_counterexample:
  "map (\<lambda>r. (deviceId r, r_rssi r)) (getValidReceivers utc_host
      (Some \<lparr>name = Some ''X'', first_seen = JNum (Fin 1000), detections = Some
        [(''R1'', \<lparr>receiver_name = JStr ''A'', receiver = Undefined, rssi = JNum (Fin (- 70)),
                   online = JBool True, last_seen = JNum (Fin 1000), update_time = JNum (Fin 1000),
                   last_update = Undefined\<rparr>),
         (''R2'', \<lparr>receiver_name = JStr ''B'', receiver = Undefined, rssi = JObj [],
                   online = JBool True, last_seen = JNum (Fin 1500), update_time = JNum (Fin 1500),
                   last_update = Undefined\<rparr>),
         (''R3'', \<lparr>receiver_name = JStr ''C'', receiver = Undefined, rssi = JNum (Fin (- 50)),
                   online = JBool True, last_seen = JNum (Fin 1800), update_time = JNum (Fin 1800),
                   last_update = Undefined\<rparr>)]\<rparr>) 2000 15000)
     = [(''R1'', JNum (Fin (- 70))), (''R2'', JObj []), (''R3'', JNum (Fin (- 50)))]"
  by code_simp

text \<open>
  C7, amended. When the signal strengths of the fresh Detections are numbers (or absent),
  the ranked receivers are exactly the items of the fresh Detections; they are in
  descending order of strength; entries of equal strength keep the order they have in the
  Detection mapping; and the result is empty exactly when no Detection is fresh.
\<close>

theorem ranked_receivers_sorted_stable:
  assumes "detections b = Some ds"
    and "\<forall>(k, d) \<in> set ds. fresh rt d now threshold \<longrightarrow> nullish (rssi d) \<or> (\<exists>n. rssi d = JNum (Fin n))"
  shows "mset (getValidReceivers rt (Some b) now threshold)
           = mset (map (\<lambda>(k, d). receiver_item rt k d) (filter (\<lambda>(k, d). fresh rt d now threshold) ds))
       \<and> sorted_wrt (\<lambda>a c. strength rt c \<le> strength rt a) (getValidReceivers rt (Some b) now threshold)
       \<and> filter (\<lambda>r. strength rt r = n) (getValidReceivers rt (Some b) now threshold)
           = filter (\<lambda>r. strength rt r = n)
               (map (\<lambda>(k, d). receiver_item rt k d) (filter (\<lambda>(k, d). fresh rt d now threshold) ds))
       \<and> (getValidReceivers rt (Some b) now threshold = [])
           = (filter (\<lambda>(k, d). fresh rt d now threshold) ds = [])"
proof -
  let ?items = "map (\<lambda>(k, d). receiver_item rt k d) (filter (\<lambda>(k, d). fresh rt d now threshold) ds)"
  have eq: "getValidReceivers rt (Some b) now threshold = sort_key (\<lambda>r. - strength rt r) ?items"
    using assms(2) assms(1) by (rule getValidReceivers_sort_key)
  have "mset (sort_key (\<lambda>r. - strength rt r) ?items) = mset ?items"
    by simp
  moreover have "sorted_wrt (\<lambda>a c. strength rt c \<le> strength rt a) (sort_key (\<lambda>r. - strength rt r) ?items)"
    by (rule sorted_desc_sort_key)
  moreover have "filter (\<lambda>r. strength rt r = n) (sort_key (\<lambda>r. - strength rt r) ?items)
                 = filter (\<lambda>r. strength rt r = n) ?items"
    by (rule stable_sort_key_neg)
  moreover have "(sort_key (\<lambda>r. - strength rt r) ?items = []) = (filter (\<lambda>(k, d). fresh rt d now threshold) ds = [])"
  proof -
    have "(sort_key (\<lambda>r. - strength rt r) ?items = []) = (length (sort_key (\<lambda>r. - strength rt r) ?items) = 0)"
      by (simp only: length_0_conv)
    also have "\<dots> = (length (filter (\<lambda>(k, d). fresh rt d now threshold) ds) = 0)"
      by (simp only: length_sort length_map)
    finally show ?thesis by (simp only: length_0_conv)
  qed
  ultimately show ?thesis unfolding eq by blast
qed

theorem ranked_receivers_sorted_stable_witness:
  "map deviceId (getValidReceivers utc_host
      (Some \<lparr>name = Some ''X'', first_seen = JNum (Fin 1000), detections = Some
        [(''R1'', \<lparr>receiver_name = JStr ''A'', receiver = Undefined, rssi = JNum (Fin (- 70)),
                   online = JBool True, last_seen = JNum (Fin 1000), update_time = JNum (Fin 1000),
                   last_update = Undefined\<rparr>),
         (''R2'', \<lparr>receiver_name = JStr ''B'', receiver = Undefined, rssi = JNum (Fin (- 55)),
                   online = JBool True, last_seen = JNum (Fin 1500), update_time = JNum (Fin 1500),
                   last_update = Undefined\<rparr>),
         (''R3'', \<lparr>receiver_name = JStr ''C'', receiver = Undefined, rssi = JNum (Fin (- 70)),
                   online = JBool True, last_seen = JNum (Fin 1800), update_time = JNum (Fin 1800),
                   last_update = Undefined\<rparr>)]\<rparr>) 2000 15000) = [''R2'', ''R1'', ''R3'']
   \<and> sorted_wrt (\<lambda>a c. strength utc_host c \<le> strength utc_host a) (getValidReceivers utc_host
      (Some \<lparr>name = Some ''X'', first_seen = JNum (Fin 1000), detections = Some
        [(''R1'', \<lparr>receiver_name = JStr ''A'', receiver = Undefined, rssi = JNum (Fin (- 70)),
                   online = JBool True, last_seen = JNum (Fin 1000), update_time = JNum (Fin 1000),
                   last_update = Undefined\<rparr>),
         (''R2'', \<lparr>receiver_name = JStr ''B'', receiver = Undefined, rssi = JNum (Fin (- 55)),
                   online = JBool True, last_seen = JNum (Fin 1500), update_time = JNum (Fin 1500),
                   last_update = Undefined\<rparr>),
         (''R3'', \<lparr>receiver_name = JStr ''C'', receiver = Undefined, rssi = JNum (Fin (- 70)),
                   online = JBool True, last_seen = JNum (Fin 1800), update_time = JNum (Fin 1800),
                   last_update = Undefined\<rparr>)]\<rparr>) 2000 15000)"
proof -
  let ?d1 = "\<lparr>receiver_name = JStr ''A'', receiver = Undefined, rssi = JNum (Fin (- 70)),
                   online = JBool True, last_seen = JNum (Fin 1000), update_time = JNum (Fin 1000),
                   last_update = Undefined\<rparr>"
  let ?d2 = "\<lparr>receiver_name = JStr ''B'', receiver = Undefined, rssi = JNum (Fin (- 55)),
                   online = JBool True, last_seen = JNum (Fin 1500), update_time = JNum (Fin 1500),
                   last_update = Undefined\<rparr>"
  let ?d3 = "\<lparr>receiver_name = JStr ''C'', receiver = Undefined, rssi = JNum (Fin (- 70)),
                   online = JBool True, last_seen = JNum (Fin 1800), update_time = JNum (Fin 1800),
                   last_update = Undefined\<rparr>"
  let ?ds = "[(''R1'', ?d1), (''R2'', ?d2), (''R3'', ?d3)]"
  let ?b = "\<lparr>name = Some ''X'', first_seen = JNum (Fin 1000), detections = Some ?ds\<rparr>"
  have h1: "detections ?b = Some ?ds" by simp
  have h2: "\<forall>(k, d) \<in> set ?ds. fresh utc_host d 2000 15000
              \<longrightarrow> nullish (rssi d) \<or> (\<exists>n. rssi d = JNum (Fin n))"
    by simp
  have order: "map deviceId (getValidReceivers utc_host (Some ?b) 2000 15000) = [''R2'', ''R1'', ''R3'']"
    by code_simp
  from ranked_receivers_sorted_stable [OF h1 h2]
  have "sorted_wrt (\<lambda>a c. strength utc_host c \<le> strength utc_host a)
          (getValidReceivers utc_host (Some ?b) 2000 15000)"
    by blast
  with order show ?thesis by blast
qed

lemma sorted_wrt_split:
  assumes "sorted_wrt (\<lambda>a c. f c \<le> (f a :: int)) xs" and "xs = pre @ r # post"
  shows "(\<forall>x \<in> set pre. f r \<le> f x) \<and> (\<forall>x \<in> set post. f x \<le> f r)"
  using assms by (auto simp: sorted_wrt_append)

lemma receiver_item_in_result:
  assumes "detections b = Some ds" and "(k, d) \<in> set ds" and "fresh rt d now threshold"
  shows "receiver_item rt k d \<in> set (getValidReceivers rt (Some b) now threshold)"
proof -
  have "(k, d) \<in> set (filter (\<lambda>(k, d). fresh rt d now threshold) ds)"
    using assms(2,3) by simp
  then have "receiver_item rt k d
             \<in> set (map (\<lambda>(k, d). receiver_item rt k d) (filter (\<lambda>(k, d). fresh rt d now threshold) ds))"
    by force
  then show ?thesis
    by (simp only: getValidReceivers_def assms(1) Let_def option.case set_Array_sort
          collect_receivers_filter)
qed

text \<open>
  C10, as the claim states it: a beacon seen by \<open>R1\<close> without a recorded strength and
  by \<open>R2\<close> at \<open>-110\<close>, both fresh. \<open>R1\<close> is returned with \<open>-100\<close> and ranks first,
  above \<open>R2\<close>, not at the bottom.
\<close>

theorem absent_strength_not_last_counterexample:
  "map (\<lambda>r. (deviceId r, r_rssi r)) (getValidReceivers utc_host
      (Some \<lparr>name = Some ''X'', first_seen = JNum (Fin 1000), detections = Some
        [(''R1'', \<lparr>receiver_name = JStr ''A'', receiver = Undefined, rssi = Undefined,
                   online = Undefined, last_seen = JNum (Fin 1000), update_time = JNum (Fin 1000),
                   last_update = Undefined\<rparr>),
         (''R2'', \<lparr>receiver_name = JStr ''B'', receiver = Undefined, rssi = JNum (Fin (- 110)),
                   online = JBool True, last_seen = JNum (Fin 1500), update_time = JNum (Fin 1500),
                   last_update = Undefined\<rparr>)]\<rparr>) 2000 15000)
   = [(''R1'', JNum (Fin (- 100))), (''R2'', JNum (Fin (- 110)))]"
  by code_simp

text \<open>
  C10, amended. A fresh Detection is returned with the strength \<open>-100\<close> when its stored
  strength is null or undefined (its own strength otherwise) and with the liveness flag
  false when its stored flag is falsy (its own flag otherwise). When the strengths of the
  fresh Detections are numbers or absent, it is ranked by that value: every entry
  before it is at least as strong and every entry after it at most as strong.
\<close>

theorem absent_strength_defaults:
  assumes "detections b = Some ds" and "(k, d) \<in> set ds" and "fresh rt d now threshold"
    and "\<forall>(k, d) \<in> set ds. fresh rt d now threshold \<longrightarrow> nullish (rssi d) \<or> (\<exists>n. rssi d = JNum (Fin n))"
  shows "\<exists>pre r post. getValidReceivers rt (Some b) now threshold = pre @ r # post
           \<and> deviceId r = k
           \<and> r_rssi r = (if nullish (rssi d) then JNum (Fin (- 100)) else rssi d)
           \<and> r_online r = (if truthy (online d) then online d else JBool False)
           \<and> lastUpdateTime r = parseDetectionTime rt (Some d)
           \<and> (\<forall>x \<in> set pre. strength rt r \<le> strength rt x)
           \<and> (\<forall>x \<in> set post. strength rt x \<le> strength rt r)"
proof -
  let ?res = "getValidReceivers rt (Some b) now threshold"
  let ?r = "receiver_item rt k d"
  have "?r \<in> set ?res"
    using assms(1,2,3) by (rule receiver_item_in_result)
  then obtain pre post where split: "?res = pre @ ?r # post"
    by (auto simp: in_set_conv_decomp)
  have eq: "?res = sort_key (\<lambda>r. - strength rt r)
              (map (\<lambda>(k, d). receiver_item rt k d) (filter (\<lambda>(k, d). fresh rt d now threshold) ds))"
    using assms(4) assms(1) by (rule getValidReceivers_sort_key)
  have "sorted_wrt (\<lambda>a c. strength rt c \<le> strength rt a) ?res"
    unfolding eq by (rule sorted_desc_sort_key)
  then have ord: "(\<forall>x \<in> set pre. strength rt ?r \<le> strength rt x)
                \<and> (\<forall>x \<in> set post. strength rt x \<le> strength rt ?r)"
    using split by (rule sorted_wrt_split)
  have fields: "deviceId ?r = k
       \<and> r_rssi ?r = (if nullish (rssi d) then JNum (Fin (- 100)) else rssi d)
       \<and> r_online ?r = (if truthy (online d) then online d else JBool False)
       \<and> lastUpdateTime ?r = parseDetectionTime rt (Some d)"
    by (simp add: receiver_item_def)
  from split fields ord show ?thesis by blast
qed

theorem absent_strength_defaults_witness:
  "\<exists>pre r post. getValidReceivers utc_host
      (Some \<lparr>name = Some ''X'', first_seen = JNum (Fin 1000), detections = Some
        [(''R1'', \<lparr>receiver_name = JStr ''A'', receiver = Undefined, rssi = Undefined,
                   online = Undefined, last_seen = JNum (Fin 1000), update_time = JNum (Fin 1000),
                   last_update = Undefined\<rparr>),
         (''R2'', \<lparr>receiver_name = JStr ''B'', receiver = Undefined, rssi = JNum (Fin (- 110)),
                   online = JBool True, last_seen = JNum (Fin 1500), update_time = JNum (Fin 1500),
                   last_update = Undefined\<rparr>)]\<rparr>) 2000 15000 = pre @ r # post
     \<and> deviceId r = ''R1'' \<and> r_rssi r = JNum (Fin (- 100)) \<and> r_online r = JBool False
     \<and> lastUpdateTime r = JNum (Fin 1000)
     \<and> (\<forall>x \<in> set pre. strength utc_host r \<le> strength utc_host x)
     \<and> (\<forall>x \<in> set post. strength utc_host x \<le> strength utc_host r)"
proof -
  let ?d1 = "\<lparr>receiver_name = JStr ''A'', receiver = Undefined, rssi = Undefined,
                   online = Undefined, last_seen = JNum (Fin 1000), update_time = JNum (Fin 1000),
                   last_update = Undefined\<rparr>"
  let ?d2 = "\<lparr>receiver_name = JStr ''B'', receiver = Undefined, rssi = JNum (Fin (- 110)),
                   online = JBool True, last_seen = JNum (Fin 1500), update_time = JNum (Fin 1500),
                   last_update = Undefined\<rparr>"
  let ?ds = "[(''R1'', ?d1), (''R2'', ?d2)]"
  let ?b = "\<lparr>name = Some ''X'', first_seen = JNum (Fin 1000), detections = Some ?ds\<rparr>"
  have h1: "detections ?b = Some ?ds" by simp
  have h2: "(''R1'', ?d1) \<in> set ?ds" by simp
  have h3: "fresh utc_host ?d1 2000 15000" by (simp add: fresh_def parseDetectionTime_def)
  have h4: "\<forall>(k, d) \<in> set ?ds. fresh utc_host d 2000 15000
              \<longrightarrow> nullish (rssi d) \<or> (\<exists>n. rssi d = JNum (Fin n))"
    by simp
  have pt: "parseDetectionTime utc_host (Some ?d1) = JNum (Fin 1000)"
    by (simp add: parseDetectionTime_def)
  show ?thesis
    using absent_strength_defaults [OF h1 h2 h3 h4] unfolding pt by simp
qed

section \<open>Lookup\<close>





section \<open>Loading\<close>

text \<open>
  C9. When the file cannot be read, and when its text is not valid JSON, \<^verbatim>\<open>loadData\<close>
  returns the empty Registry; it has no other outcome than a document.
\<close>

theorem loadData_missing_or_unparsable:
  "loadData rt None = \<lparr>devices = Some [], beacons = Some []\<rparr>
   \<and> (JSON_parse rt content = ParseError
        \<longrightarrow> loadData rt (Some content) = \<lparr>devices = Some [], beacons = Some []\<rparr>)"
  by (simp add: loadData_def empty_document_def)

theorem loadData_missing_or_unparsable_witness:
  "JSON_parse utc_host ''{devices:'' = ParseError
   \<and> loadData utc_host None = \<lparr>devices = Some [], beacons = Some []\<rparr>
   \<and> loadData utc_host (Some ''{devices:'') = \<lparr>devices = Some [], beacons = Some []\<rparr>"
proof -
  have h: "JSON_parse utc_host ''{devices:'' = ParseError"
    by (simp add: utc_host_def)
  show ?thesis
    using h loadData_missing_or_unparsable [of utc_host "''{devices:''"] by simp
qed

section \<open>Reaper\<close>















section \<open>Ingestion\<close>

lemma map_fst_obj_modify: "map fst (obj_modify k f xs) = map fst xs"
  by (induction xs) auto

lemma map_of_obj_modify:
  "map_of (obj_modify k f xs) k' = (if k' = k then map_option f (map_of xs k) else map_of xs k')"
  by (induction xs) auto

lemma map_of_obj_insert_index:
  "k \<notin> fst ` set xs \<Longrightarrow>
   map_of (obj_insert_index n k v xs) k' = (if k' = k then Some v else map_of xs k')"
  by (induction xs) (auto split: option.splits)

lemma set_obj_insert_index: "set (obj_insert_index n k v xs) = insert (k, v) (set xs)"
  by (induction xs) (auto split: option.splits if_splits)

lemma distinct_obj_insert_index:
  "k \<notin> fst ` set xs \<Longrightarrow> distinct (map fst xs) \<Longrightarrow> distinct (map fst (obj_insert_index n k v xs))"
  by (induction xs) (auto simp: set_obj_insert_index split: option.splits)

lemma map_of_obj_set_other:
  "k' \<noteq> k \<Longrightarrow> map_of (obj_set k v xs) k' = map_of xs k'"
  by (auto simp: obj_set_def map_of_obj_modify map_of_obj_insert_index map_add_def
           split: option.splits)

lemma map_of_obj_set_same:
  assumes "k \<in> fst ` set xs \<or> k \<noteq> ''__proto__''"
  shows "map_of (obj_set k v xs) k = Some v"
proof (cases "k \<in> fst ` set xs")
  case True
  then obtain w where "map_of xs k = Some w"
    by (metis domD dom_map_of_conv_image_fst)
  with True show ?thesis
    by (simp add: obj_set_def map_of_obj_modify)
next
  case False
  then have none: "map_of xs k = None"
    by (simp add: map_of_eq_None_iff)
  from False assms have np: "k \<noteq> ''__proto__''" by simp
  show ?thesis
  proof (cases "array_index k")
    case None
    with False none np show ?thesis
      by (simp add: obj_set_def map_add_def split: option.splits)
  next
    case (Some n)
    with False np show ?thesis
      by (simp add: obj_set_def map_of_obj_insert_index)
  qed
qed

lemma obj_set_proto_absent:
  "''__proto__'' \<notin> fst ` set xs \<Longrightarrow> obj_set ''__proto__'' v xs = xs"
  by (simp add: obj_set_def)

lemma distinct_obj_set:
  "distinct (map fst xs) \<Longrightarrow> distinct (map fst (obj_set k v xs))"
  by (auto simp: obj_set_def map_fst_obj_modify distinct_obj_insert_index split: option.splits)

lemma keys_obj_set:
  "fst ` set (obj_set k v xs) = (if k = ''__proto__'' then fst ` set xs else insert k (fst ` set xs))"
proof (cases "k \<in> fst ` set xs")
  case True
  then have "map fst (obj_set k v xs) = map fst xs"
    by (simp add: obj_set_def map_fst_obj_modify)
  then have "set (map fst (obj_set k v xs)) = set (map fst xs)" by simp
  with True show ?thesis by (auto simp del: map_map)
next
  case False
  then show ?thesis
    by (auto simp: obj_set_def set_obj_insert_index split: option.splits)
qed

lemma list_all_obj_modify:
  assumes "list_all Q xs" and "\<And>v. map_of xs k = Some v \<Longrightarrow> Q (k, f v)"
  shows "list_all Q (obj_modify k f xs)"
  using assms by (induction xs) (auto split: if_splits)

lemma list_all_obj_insert_index:
  "list_all Q xs \<Longrightarrow> Q (k, v) \<Longrightarrow> list_all Q (obj_insert_index n k v xs)"
  by (induction xs) (auto split: option.splits)

lemma list_all_obj_set:
  assumes "list_all Q xs" and "Q (k, v)"
  shows "list_all Q (obj_set k v xs)"
  using assms
  by (auto simp: obj_set_def list_all_obj_insert_index intro!: list_all_obj_modify split: option.splits)

lemma map_of_in_set: "map_of xs k = Some v \<Longrightarrow> (k, v) \<in> set xs"
  by (rule map_of_SomeD)

lemma map_of_map_values:
  "map_of (map (map_prod id f) xs) k = map_option f (map_of xs k)"
  by (induction xs) auto

lemma map_fst_map_values: "map fst (map (map_prod id f) xs) = map fst xs"
  by (induction xs) auto

lemma ingest_beacon_falsy:
  "\<not> str_truthy (mac b) \<Longrightarrow> ingest_beacon pn devId r t b d = Done d"
  by (simp add: ingest_beacon_def)

lemma ingest_beacon_no_beacons:
  "mac b = Some m \<Longrightarrow> m \<noteq> [] \<Longrightarrow> beacons d = None \<Longrightarrow> ingest_beacon pn devId r t b d = Throws"
  by (simp add: ingest_beacon_def)

lemma ingest_beacon_inherited:
  assumes "mac b = Some m" and "m \<noteq> []" and "beacons d = Some bs"
    and "map_of bs m = None" and "inherited pn m"
  shows "ingest_beacon pn devId r t b d =
           (case beacon_name pn b of
              None \<Rightarrow> Throws
            | Some s \<Rightarrow> if m = ''__proto__'' \<and> s \<noteq> [] then Pollutes s else Throws)"
  using assms by (simp add: ingest_beacon_def)

lemma ingest_beacon_found:
  assumes "mac b = Some m" and "m \<noteq> []" and "beacons d = Some bs"
    and "map_of bs m \<noteq> None \<or> \<not> inherited pn m"
  shows "ingest_beacon pn devId r t b d =
         (let bc1 = (case map_of bs m of
                       None \<Rightarrow> \<lparr>name = beacon_name pn b, first_seen = JNum (Fin t), detections = Some []\<rparr>
                     | Some bc \<Rightarrow> bc);
              bs1 = (case map_of bs m of
                       None \<Rightarrow> obj_set m \<lparr>name = beacon_name pn b, first_seen = JNum (Fin t), detections = Some []\<rparr> bs
                     | Some _ \<Rightarrow> bs);
              bs2 = (if str_truthy (beacon_name pn b)
                     then obj_modify m (\<lambda>bc. bc\<lparr>name := beacon_name pn b\<rparr>) bs1 else bs1)
          in (case rssiValue (adv_rssi b) of
                None \<Rightarrow> Throws
              | Some rv \<Rightarrow>
                  (case detections bc1 of
                     None \<Rightarrow> Throws
                   | Some ds \<Rightarrow>
                       Done (d\<lparr>beacons := Some (obj_modify m
                          (\<lambda>bc. bc\<lparr>detections := Some (obj_set devId
                              (stored_detection r t rv (adv_online b)) ds)\<rparr>) bs2)\<rparr>))))"
proof (cases "map_of bs m")
  case None
  with assms(4) have ni: "\<not> inherited pn m" by simp
  then have np: "m \<noteq> ''__proto__''"
    by (auto simp: inherited_def inherited_names_def)
  from None have nk: "m \<notin> fst ` set bs"
    by (simp add: map_of_eq_None_iff)
  have same: "map_of (obj_set m v bs) m = Some v" for v
    using np by (intro map_of_obj_set_same) simp
  show ?thesis
    using assms(1,2,3) None ni
    by (simp add: ingest_beacon_def stored_detection_def same map_of_obj_modify Let_def
             split: option.splits)
next
  case (Some bc)
  then show ?thesis
    using assms(1,2,3)
    by (simp add: ingest_beacon_def stored_detection_def map_of_obj_modify Let_def
             split: option.splits)
qed

lemma ingest_beacon_Done_found:
  assumes "ingest_beacon pn devId r t b d = Done d'" and "mac b = Some m" and "m \<noteq> []"
  shows "\<exists>bs. beacons d = Some bs \<and> (map_of bs m \<noteq> None \<or> \<not> inherited pn m)"
proof (cases "beacons d")
  case None
  with assms show ?thesis by (simp add: ingest_beacon_no_beacons)
next
  case (Some bs)
  show ?thesis
  proof (cases "map_of bs m = None \<and> inherited pn m")
    case True
    with assms Some show ?thesis
      by (auto simp: ingest_beacon_inherited split: option.splits if_splits)
  next
    case False
    with Some show ?thesis by auto
  qed
qed

lemma not_inherited_proto: "\<not> inherited pn m \<Longrightarrow> m \<noteq> ''__proto__''"
  by (auto simp: inherited_def inherited_names_def)

lemma ingest_beacon_effect:
  assumes "ingest_beacon pn devId r t b d = Done d'" and "mac b = Some m" and "m \<noteq> []"
  shows "\<exists>rv. rssiValue (adv_rssi b) = Some rv
           \<and> devices d' = devices d
           \<and> beacons d \<noteq> None
           \<and> (\<forall>m'. detections_of d' m' =
                 (if m' = m then obj_set devId (stored_detection r t rv (adv_online b)) (detections_of d m)
                  else detections_of d m'))"
proof -
  from ingest_beacon_Done_found[OF assms] obtain bs where bs: "beacons d = Some bs"
    and found: "map_of bs m \<noteq> None \<or> \<not> inherited pn m"
    by blast
  define new where "new = \<lparr>name = beacon_name pn b, first_seen = JNum (Fin t), detections = Some []\<rparr>"
  define bc1 where "bc1 = (case map_of bs m of None \<Rightarrow> new | Some bc \<Rightarrow> bc)"
  define bs1 where "bs1 = (case map_of bs m of None \<Rightarrow> obj_set m new bs | Some _ \<Rightarrow> bs)"
  define bs2 where "bs2 = (if str_truthy (beacon_name pn b)
                     then obj_modify m (\<lambda>bc. bc\<lparr>name := beacon_name pn b\<rparr>) bs1 else bs1)"
  have nf: "ingest_beacon pn devId r t b d =
      (case rssiValue (adv_rssi b) of
                None \<Rightarrow> Throws
              | Some rv \<Rightarrow>
                  (case detections bc1 of
                     None \<Rightarrow> Throws
                   | Some ds \<Rightarrow>
                       Done (d\<lparr>beacons := Some (obj_modify m
                          (\<lambda>bc. bc\<lparr>detections := Some (obj_set devId
                              (stored_detection r t rv (adv_online b)) ds)\<rparr>) bs2)\<rparr>)))"
    unfolding ingest_beacon_found[OF assms(2,3) bs found] bc1_def bs1_def bs2_def new_def
    by (simp add: Let_def)
  from assms(1) nf obtain rv where rv: "rssiValue (adv_rssi b) = Some rv"
    by (cases "rssiValue (adv_rssi b)") simp_all
  from assms(1) nf rv obtain ds where ds: "detections bc1 = Some ds"
    by (cases "detections bc1") simp_all
  let ?f = "\<lambda>bc. bc\<lparr>detections := Some (obj_set devId (stored_detection r t rv (adv_online b)) ds)\<rparr>"
  have d': "d' = d\<lparr>beacons := Some (obj_modify m ?f bs2)\<rparr>"
    using assms(1) nf rv ds by simp
  have m1: "map_of bs1 m = Some bc1"
  proof (cases "map_of bs m")
    case None
    with found have "m \<noteq> ''__proto__''" by (simp add: not_inherited_proto)
    then have "map_of (obj_set m new bs) m = Some new"
      by (intro map_of_obj_set_same) simp
    with None show ?thesis by (simp add: bs1_def bc1_def)
  next
    case (Some bc)
    then show ?thesis by (simp add: bs1_def bc1_def)
  qed
  have o1: "map_of bs1 m' = map_of bs m'" if "m' \<noteq> m" for m'
    using that by (cases "map_of bs m") (simp_all add: bs1_def map_of_obj_set_other)
  have m2: "\<exists>bc2. map_of bs2 m = Some bc2 \<and> detections bc2 = Some ds"
    using m1 ds by (simp add: bs2_def map_of_obj_modify)
  have o2: "map_of bs2 m' = map_of bs m'" if "m' \<noteq> m" for m'
    using that o1 by (simp add: bs2_def map_of_obj_modify)
  have old: "detections_of d m = ds"
  proof (cases "map_of bs m")
    case None
    then show ?thesis using ds by (simp add: detections_of_def bs bc1_def new_def)
  next
    case (Some bc)
    then show ?thesis using ds by (simp add: detections_of_def bs bc1_def)
  qed
  have at_m: "detections_of d' m = obj_set devId (stored_detection r t rv (adv_online b)) ds"
    using m2 by (auto simp: detections_of_def d' map_of_obj_modify)
  have other: "detections_of d' m' = detections_of d m'" if "m' \<noteq> m" for m'
    using that o2 by (simp add: detections_of_def d' bs map_of_obj_modify)
  show ?thesis
    using rv d' bs at_m other old by auto
qed

lemma ingest_beacon_frame:
  assumes "ingest_beacon pn devId r t b d = Done d'"
    and "k \<noteq> devId \<or> \<not> (mac b = Some m \<and> m \<noteq> [])"
  shows "map_of (detections_of d' m) k = map_of (detections_of d m) k"
proof (cases "str_truthy (mac b)")
  case False
  with assms(1) show ?thesis by (simp add: ingest_beacon_falsy)
next
  case True
  then obtain m0 where m0: "mac b = Some m0" "m0 \<noteq> []"
    by (cases "mac b") simp_all
  from ingest_beacon_effect[OF assms(1) m0] assms(2) m0 show ?thesis
    by (auto simp: map_of_obj_set_other)
qed

lemma ingest_beacon_stores:
  assumes "ingest_beacon pn devId r t b d = Done d'" and "mac b = Some m" and "m \<noteq> []"
    and "devId \<noteq> ''__proto__''"
  shows "\<exists>rv. rssiValue (adv_rssi b) = Some rv
           \<and> map_of (detections_of d' m) devId = Some (stored_detection r t rv (adv_online b))"
proof -
  from ingest_beacon_effect[OF assms(1,2,3)] obtain rv where
    rv: "rssiValue (adv_rssi b) = Some rv" and
    eff: "detections_of d' m = obj_set devId (stored_detection r t rv (adv_online b)) (detections_of d m)"
    by auto
  have "map_of (detections_of d' m) devId = Some (stored_detection r t rv (adv_online b))"
    unfolding eff using assms(4) by (intro map_of_obj_set_same) simp
  with rv show ?thesis by blast
qed

lemma ingest_beacon_devices:
  assumes "ingest_beacon pn devId r t b d = Done d'"
  shows "devices d' = devices d"
proof (cases "str_truthy (mac b)")
  case False
  with assms show ?thesis by (simp add: ingest_beacon_falsy)
next
  case True
  then obtain m where "mac b = Some m" "m \<noteq> []"
    by (cases "mac b") simp_all
  from ingest_beacon_effect[OF assms this] show ?thesis by blast
qed

lemma ingest_loop_Done_Cons:
  "ingest_loop pn devId r t (b # bs) d = Done d' \<Longrightarrow>
   \<exists>d1. ingest_beacon pn devId r t b d = Done d1 \<and> ingest_loop pn devId r t bs d1 = Done d'"
  by (cases "ingest_beacon pn devId r t b d") simp_all

lemma ingest_loop_append_Done:
  "ingest_loop pn devId r t (xs @ ys) d = Done d' \<Longrightarrow>
   \<exists>d1. ingest_loop pn devId r t xs d = Done d1 \<and> ingest_loop pn devId r t ys d1 = Done d'"
proof (induction xs arbitrary: d)
  case Nil
  then show ?case by simp
next
  case (Cons x xs)
  from Cons.prems obtain d0 where s: "ingest_beacon pn devId r t x d = Done d0"
    and l: "ingest_loop pn devId r t (xs @ ys) d0 = Done d'"
    using ingest_loop_Done_Cons[of pn devId r t x "xs @ ys" d d'] by auto
  from Cons.IH[OF l] s show ?case by auto
qed

lemma ingest_loop_devices:
  "ingest_loop pn devId r t bs d = Done d' \<Longrightarrow> devices d' = devices d"
proof (induction bs arbitrary: d)
  case Nil
  then show ?case by simp
next
  case (Cons b bs)
  from ingest_loop_Done_Cons[OF Cons.prems] obtain d1 where
    s: "ingest_beacon pn devId r t b d = Done d1" and l: "ingest_loop pn devId r t bs d1 = Done d'"
    by blast
  from Cons.IH[OF l] ingest_beacon_devices[OF s] show ?case by simp
qed

lemma ingest_loop_frame:
  assumes "ingest_loop pn devId r t bs d = Done d'"
    and "k \<noteq> devId \<or> (\<forall>b \<in> set bs. \<not> (mac b = Some m \<and> m \<noteq> []))"
  shows "map_of (detections_of d' m) k = map_of (detections_of d m) k"
  using assms
proof (induction bs arbitrary: d)
  case Nil
  then show ?case by simp
next
  case (Cons b bs)
  from ingest_loop_Done_Cons[OF Cons.prems(1)] obtain d1 where
    s: "ingest_beacon pn devId r t b d = Done d1" and l: "ingest_loop pn devId r t bs d1 = Done d'"
    by blast
  have "map_of (detections_of d1 m) k = map_of (detections_of d m) k"
    using s Cons.prems(2) by (intro ingest_beacon_frame) auto
  moreover have "map_of (detections_of d' m) k = map_of (detections_of d1 m) k"
    using l Cons.prems(2) by (intro Cons.IH) auto
  ultimately show ?case by simp
qed

lemma ingest_loop_last:
  assumes "ingest_loop pn devId r t (pre @ b # post) d = Done d'"
    and "mac b = Some m" and "m \<noteq> []" and "\<forall>x \<in> set post. mac x \<noteq> Some m"
    and "devId \<noteq> ''__proto__''"
  shows "\<exists>rv. rssiValue (adv_rssi b) = Some rv
           \<and> map_of (detections_of d' m) devId = Some (stored_detection r t rv (adv_online b))"
proof -
  from ingest_loop_append_Done[OF assms(1)] obtain d1 where
    "ingest_loop pn devId r t (b # post) d1 = Done d'"
    by blast
  from ingest_loop_Done_Cons[OF this] obtain d2 where
    s: "ingest_beacon pn devId r t b d1 = Done d2" and l: "ingest_loop pn devId r t post d2 = Done d'"
    by blast
  from ingest_beacon_stores[OF s assms(2,3,5)] obtain rv where
    rv: "rssiValue (adv_rssi b) = Some rv" and
    at: "map_of (detections_of d2 m) devId = Some (stored_detection r t rv (adv_online b))"
    by auto
  have "map_of (detections_of d' m) devId = map_of (detections_of d2 m) devId"
    using l assms(4) by (intro ingest_loop_frame) auto
  with rv at show ?thesis by simp
qed

lemma last_entry_with_mac:
  assumes "b \<in> set bs" and "mac b = Some m"
  shows "\<exists>pre b' post. bs = pre @ b' # post \<and> mac b' = Some m \<and> (\<forall>x \<in> set post. mac x \<noteq> Some m)"
proof -
  from assms have "\<exists>x \<in> set bs. mac x = Some m" by blast
  then obtain pre b' post where "bs = pre @ b' # post" "mac b' = Some m"
    "\<forall>x \<in> set post. \<not> (mac x = Some m)"
    by (auto simp: split_list_last_prop_iff)
  then show ?thesis by blast
qed

lemma detections_of_devices_update [simp]:
  "detections_of (d\<lparr>devices := x\<rparr>) m = detections_of d m"
  by (simp add: detections_of_def)

lemma handleBLEData_Saved:
  assumes "handleBLEData pn e t d = Saved d'"
  shows "\<exists>k devs. device_id e = Some k \<and> k \<noteq> [] \<and> ev_beacons e \<noteq> [] \<and> devices d = Some devs
           \<and> ingest_loop pn k (str_or (device_name e) k) t (ev_beacons e)
                (d\<lparr>devices := Some (obj_set k
                        \<lparr>dev_name = str_or (device_name e) k,
                         dev_type = str_or (device_type e) ''ESP32'',
                         update = JNum (Fin t),
                         batch = js_or (ev_batch e) (JNum (Fin 1)),
                         total_batches = js_or (ev_total_batches e) (JNum (Fin 1))\<rparr> devs)\<rparr>) = Done d'"
  using assms
  by (auto simp: handleBLEData_def Let_def split: option.splits if_splits step.splits)

lemma map_fst_obj_insert_index:
  "map fst (obj_insert_index n k v xs) = key_insert_index n k (map fst xs)"
  by (induction xs) (auto split: option.splits)

lemma map_fst_obj_set: "map fst (obj_set k v xs) = key_set k (map fst xs)"
  by (auto simp: obj_set_def key_set_def map_fst_obj_modify map_fst_obj_insert_index
           split: option.splits)

lemma key_set_present: "k \<in> set ks \<or> k = ''__proto__'' \<Longrightarrow> key_set k ks = ks"
  by (auto simp: key_set_def)

lemma key_in_key_set: "k \<noteq> ''__proto__'' \<Longrightarrow> k \<in> set (key_set k ks)"
proof -
  assume k: "k \<noteq> ''__proto__''"
  have "fst ` set (obj_set k () (map (\<lambda>x. (x, ())) ks)) = insert k (fst ` set (map (\<lambda>x. (x, ())) ks))"
    using k by (simp add: keys_obj_set)
  then have "k \<in> set (map fst (obj_set k () (map (\<lambda>x. (x, ())) ks)))"
    by simp
  then show ?thesis
    unfolding map_fst_obj_set by (simp add: comp_def)
qed

lemma set_key_set:
  "set (key_set k ks) = (if k = ''__proto__'' then set ks else insert k (set ks))"
proof -
  have "fst ` set (obj_set k () (map (\<lambda>x. (x, ())) ks))
          = (if k = ''__proto__'' then fst ` set (map (\<lambda>x. (x, ())) ks)
             else insert k (fst ` set (map (\<lambda>x. (x, ())) ks)))"
    by (rule keys_obj_set)
  moreover have "fst ` set (obj_set k () (map (\<lambda>x. (x, ())) ks))
          = set (map fst (obj_set k () (map (\<lambda>x. (x, ())) ks)))"
    by simp
  ultimately show ?thesis
    unfolding map_fst_obj_set by (simp add: comp_def image_image)
qed

lemma shape_beacon_correct:
  "(case ingest_beacon pn devId r t b d of Done d' \<Rightarrow> Some (shape_of d') | _ \<Rightarrow> None)
     = shape_beacon pn devId b (shape_of d)"
proof (cases "str_truthy (mac b)")
  case False
  then show ?thesis
    by (cases "mac b") (simp_all add: ingest_beacon_falsy shape_beacon_def shape_of_def)
next
  case True
  then obtain m where m: "mac b = Some m" "m \<noteq> []"
    by (cases "mac b") simp_all
  show ?thesis
  proof (cases "beacons d")
    case None
    then show ?thesis
      using m by (simp add: ingest_beacon_no_beacons shape_beacon_def shape_of_def)
  next
    case (Some bs)
    show ?thesis
    proof (cases "map_of bs m = None \<and> inherited pn m")
      case inh: True
      then have "keys_at d m = None" by (simp add: keys_at_def Some)
      moreover have "\<forall>d'. ingest_beacon pn devId r t b d \<noteq> Done d'"
        using ingest_beacon_inherited[OF m Some] inh
        by (auto split: option.splits if_splits)
      ultimately show ?thesis
        using m Some inh
        by (cases "ingest_beacon pn devId r t b d")
           (simp_all add: shape_beacon_def shape_of_def)
    next
      case ninh: False
      then have found: "map_of bs m \<noteq> None \<or> \<not> inherited pn m" by simp
      define new where "new = \<lparr>name = beacon_name pn b, first_seen = JNum (Fin t), detections = Some []\<rparr>"
      define bc1 where "bc1 = (case map_of bs m of None \<Rightarrow> new | Some bc \<Rightarrow> bc)"
      define bs1 where "bs1 = (case map_of bs m of None \<Rightarrow> obj_set m new bs | Some _ \<Rightarrow> bs)"
      define bs2 where "bs2 = (if str_truthy (beacon_name pn b)
                       then obj_modify m (\<lambda>bc. bc\<lparr>name := beacon_name pn b\<rparr>) bs1 else bs1)"
      have nf: "ingest_beacon pn devId r t b d =
        (case rssiValue (adv_rssi b) of
                  None \<Rightarrow> Throws
                | Some rv \<Rightarrow>
                    (case detections bc1 of
                       None \<Rightarrow> Throws
                     | Some ds \<Rightarrow>
                         Done (d\<lparr>beacons := Some (obj_modify m
                            (\<lambda>bc. bc\<lparr>detections := Some (obj_set devId
                                (stored_detection r t rv (adv_online b)) ds)\<rparr>) bs2)\<rparr>)))"
        unfolding ingest_beacon_found[OF m Some found] bc1_def bs1_def bs2_def new_def
        by (simp add: Let_def)
      have km: "keys_at d m = (case map_of bs m of None \<Rightarrow> None
                   | Some bc \<Rightarrow> Some (map_option (map fst) (detections bc)))"
        by (cases "map_of bs m") (simp_all add: keys_at_def Some)
      show ?thesis
      proof (cases "rssiValue (adv_rssi b)")
        case None
        then show ?thesis
          using m Some nf by (simp add: shape_beacon_def shape_of_def)
      next
        case rv: (Some rv)
        show ?thesis
        proof (cases "detections bc1")
          case None
          then have "keys_at d m = Some None"
            unfolding km by (cases "map_of bs m") (simp_all add: bc1_def new_def)
          with None rv m Some nf show ?thesis
            by (simp add: shape_beacon_def shape_of_def)
        next
          case ds: (Some ds)
          let ?f = "\<lambda>bc. bc\<lparr>detections := Some (obj_set devId (stored_detection r t rv (adv_online b)) ds)\<rparr>"
          let ?d' = "d\<lparr>beacons := Some (obj_modify m ?f bs2)\<rparr>"
          have res: "ingest_beacon pn devId r t b d = Done ?d'"
            using nf rv ds by simp
          have m1: "map_of bs1 m = Some bc1"
          proof (cases "map_of bs m")
            case None
            with found have "m \<noteq> ''__proto__''" by (simp add: not_inherited_proto)
            then have "map_of (obj_set m new bs) m = Some new"
              by (intro map_of_obj_set_same) simp
            with None show ?thesis by (simp add: bs1_def bc1_def)
          next
            case (Some bc)
            then show ?thesis by (simp add: bs1_def bc1_def)
          qed
          have o1: "map_of bs1 m' = map_of bs m'" if "m' \<noteq> m" for m'
            using that by (cases "map_of bs m") (simp_all add: bs1_def map_of_obj_set_other)
          have m2: "\<exists>bc2. map_of bs2 m = Some bc2 \<and> detections bc2 = Some ds"
            using m1 ds by (simp add: bs2_def map_of_obj_modify)
          have o2: "map_of bs2 m' = map_of bs m'" if "m' \<noteq> m" for m'
            using that o1 by (simp add: bs2_def map_of_obj_modify)
          have new_m: "keys_at ?d' m = Some (Some (key_set devId (map fst ds)))"
            using m2 by (auto simp: keys_at_def map_of_obj_modify map_fst_obj_set)
          have new_o: "keys_at ?d' m' = keys_at d m'" if "m' \<noteq> m" for m'
            using that o2 by (simp add: keys_at_def Some map_of_obj_modify)
          have upd: "keys_at ?d' = (keys_at d)(m := Some (Some (key_set devId (map fst ds))))"
            using new_m new_o by (auto simp: fun_eq_iff)
          have old: "keys_at d m = (if map_of bs m = None then None else Some (Some (map fst ds)))"
            unfolding km using ds by (cases "map_of bs m") (simp_all add: bc1_def new_def)
          have dsnew: "map_of bs m = None \<Longrightarrow> ds = []"
            using ds by (simp add: bc1_def new_def)
          show ?thesis
          proof (cases "map_of bs m")
            case None
            with found have "\<not> inherited pn m" by simp
            with None old dsnew upd res rv m Some show ?thesis
              by (simp add: shape_beacon_def shape_of_def)
          next
            case (Some bc)
            with old upd res rv m \<open>beacons d = Some bs\<close> show ?thesis
              by (simp add: shape_beacon_def shape_of_def)
          qed
        qed
      qed
    qed
  qed
qed

lemma shape_loop_correct:
  "(case ingest_loop pn devId r t bs d of Done d' \<Rightarrow> Some (shape_of d') | _ \<Rightarrow> None)
     = shape_loop pn devId bs (shape_of d)"
proof (induction bs arbitrary: d)
  case Nil
  show ?case by simp
next
  case (Cons b bs)
  show ?case
  proof (cases "ingest_beacon pn devId r t b d")
    case (Done d1)
    with shape_beacon_correct[of pn devId r t b d]
    have "shape_beacon pn devId b (shape_of d) = Some (shape_of d1)" by simp
    with Done Cons.IH[of d1] show ?thesis by simp
  next
    case Throws
    with shape_beacon_correct[of pn devId r t b d] show ?thesis by simp
  next
    case (Pollutes s)
    with shape_beacon_correct[of pn devId r t b d] show ?thesis by simp
  qed
qed

lemma shape_beacon_covers:
  "shape_beacon pn k b s = Some s' \<Longrightarrow> covered k s' b"
  by (cases s; cases "k = ''__proto__''")
     (auto simp: shape_beacon_def covered_def key_in_key_set split: option.splits if_splits)

lemma shape_beacon_keeps:
  "shape_beacon pn k b s = Some s' \<Longrightarrow> covered k s b' \<Longrightarrow> covered k s' b'"
  by (cases s; cases "k = ''__proto__''")
     (auto simp: shape_beacon_def covered_def key_in_key_set key_set_present
           split: option.splits if_splits)

lemma shape_beacon_fixed:
  "covered k s b \<Longrightarrow> shape_beacon pn k b s = Some s"
  by (cases s)
     (auto simp: shape_beacon_def covered_def key_set_present fun_upd_idem
           split: option.splits if_splits)

lemma shape_loop_keeps:
  "shape_loop pn k bs s = Some s' \<Longrightarrow> covered k s b' \<Longrightarrow> covered k s' b'"
proof (induction bs arbitrary: s)
  case Nil
  then show ?case by simp
next
  case (Cons b bs)
  from Cons.prems(1) obtain s1 where s: "shape_beacon pn k b s = Some s1"
    and l: "shape_loop pn k bs s1 = Some s'"
    by (auto split: option.splits)
  from shape_beacon_keeps[OF s Cons.prems(2)] Cons.IH[OF l] show ?case by simp
qed

lemma shape_loop_covers:
  "shape_loop pn k bs s = Some s' \<Longrightarrow> \<forall>b \<in> set bs. covered k s' b"
proof (induction bs arbitrary: s)
  case Nil
  then show ?case by simp
next
  case (Cons b bs)
  from Cons.prems(1) obtain s1 where s: "shape_beacon pn k b s = Some s1"
    and l: "shape_loop pn k bs s1 = Some s'"
    by (auto split: option.splits)
  have "covered k s' b"
    using l shape_beacon_covers[OF s] by (rule shape_loop_keeps)
  with Cons.IH[OF l] show ?case by simp
qed

lemma shape_loop_fixed:
  "\<forall>b \<in> set bs. covered k s b \<Longrightarrow> shape_loop pn k bs s = Some s"
  by (induction bs) (simp_all add: shape_beacon_fixed)

lemma shape_loop_flags:
  "shape_loop pn k bs s = Some s' \<Longrightarrow> fst s' = fst s \<and> fst (snd s') = fst (snd s)"
proof (induction bs arbitrary: s)
  case Nil
  then show ?case by simp
next
  case (Cons b bs)
  from Cons.prems(1) obtain s1 where s: "shape_beacon pn k b s = Some s1"
    and l: "shape_loop pn k bs s1 = Some s'"
    by (auto split: option.splits)
  have "fst s1 = fst s \<and> fst (snd s1) = fst (snd s)"
    using s by (cases s) (auto simp: shape_beacon_def split: option.splits if_splits)
  with Cons.IH[OF l] show ?case by simp
qed

lemma shape_handle_idem:
  assumes "shape_handle pn e s = Some s'"
  shows "shape_handle pn' e s' = Some s'"
proof -
  obtain hasd hasb f where s: "s = (hasd, hasb, f)" by (cases s)
  from assms obtain k where k: "device_id e = Some k" "k \<noteq> []" "ev_beacons e \<noteq> []"
    and hasd: "hasd" and l: "shape_loop pn k (ev_beacons e) (True, hasb, f) = Some s'"
    by (auto simp: shape_handle_def s split: option.splits if_splits)
  obtain hasd' hasb' f' where s': "s' = (hasd', hasb', f')" by (cases s')
  from shape_loop_flags[OF l] have flags: "hasd'" by (simp add: s')
  from shape_loop_covers[OF l] have "shape_loop pn' k (ev_beacons e) s' = Some s'"
    by (rule shape_loop_fixed)
  with k flags show ?thesis
    by (simp add: shape_handle_def s')
qed

lemma shape_of_devices_update:
  "shape_of (d\<lparr>devices := Some x\<rparr>) = (True, beacons d \<noteq> None, keys_at d)"
  by (simp add: shape_of_def keys_at_def fun_eq_iff)

lemma shape_handle_correct:
  "(case handleBLEData pn e t d of Saved d' \<Rightarrow> Some (shape_of d') | _ \<Rightarrow> None)
     = shape_handle pn e (shape_of d)"
proof (cases "device_id e")
  case None
  then show ?thesis by (simp add: handleBLEData_def shape_handle_def)
next
  case (Some k)
  show ?thesis
  proof (cases "k = [] \<or> ev_beacons e = []")
    case True
    with Some show ?thesis by (auto simp: handleBLEData_def shape_handle_def)
  next
    case False
    show ?thesis
    proof (cases "devices d")
      case None
      with Some False show ?thesis
        by (simp add: handleBLEData_def shape_handle_def shape_of_def)
    next
      case devs: (Some devs)
      let ?d1 = "d\<lparr>devices := Some (obj_set k
                        \<lparr>dev_name = str_or (device_name e) k,
                         dev_type = str_or (device_type e) ''ESP32'',
                         update = JNum (Fin t),
                         batch = js_or (ev_batch e) (JNum (Fin 1)),
                         total_batches = js_or (ev_total_batches e) (JNum (Fin 1))\<rparr> devs)\<rparr>"
      have "(case ingest_loop pn k (str_or (device_name e) k) t (ev_beacons e) ?d1 of
               Done d' \<Rightarrow> Some (shape_of d') | _ \<Rightarrow> None)
              = shape_loop pn k (ev_beacons e) (True, beacons d \<noteq> None, keys_at d)"
        unfolding shape_loop_correct shape_of_devices_update ..
      then show ?thesis
        using Some False devs
        by (cases "ingest_loop pn k (str_or (device_name e) k) t (ev_beacons e) ?d1")
           (simp_all add: handleBLEData_def shape_handle_def shape_of_def Let_def)
    qed
  qed
qed

lemma keys_detections_of:
  "map fst (detections_of d m) = (case keys_at d m of Some (Some ks) \<Rightarrow> ks | _ \<Rightarrow> [])"
  by (simp add: detections_of_def keys_at_def split: option.splits)

lemma ingest_beacon_form:
  assumes "ingest_beacon pn devId r t b d = Done d'" and "mac b = Some m" and "m \<noteq> []"
  shows "\<exists>bs bs1 bs2 rv ds bc1.
           beacons d = Some bs
         \<and> (bs1 = bs \<or> (m \<noteq> ''__proto__'' \<and> bs1 = obj_set m \<lparr>name = beacon_name pn b, first_seen = JNum (Fin t), detections = Some []\<rparr> bs))
         \<and> (bs2 = bs1 \<or> bs2 = obj_modify m (\<lambda>bc. bc\<lparr>name := beacon_name pn b\<rparr>) bs1)
         \<and> map_of bs1 m = Some bc1 \<and> detections bc1 = Some ds
         \<and> rssiValue (adv_rssi b) = Some rv
         \<and> d' = d\<lparr>beacons := Some (obj_modify m
                          (\<lambda>bc. bc\<lparr>detections := Some (obj_set devId
                              (stored_detection r t rv (adv_online b)) ds)\<rparr>) bs2)\<rparr>"
proof -
  from ingest_beacon_Done_found[OF assms] obtain bs where bs: "beacons d = Some bs"
    and found: "map_of bs m \<noteq> None \<or> \<not> inherited pn m"
    by blast
  define new where "new = \<lparr>name = beacon_name pn b, first_seen = JNum (Fin t), detections = Some []\<rparr>"
  define bc1 where "bc1 = (case map_of bs m of None \<Rightarrow> new | Some bc \<Rightarrow> bc)"
  define bs1 where "bs1 = (case map_of bs m of None \<Rightarrow> obj_set m new bs | Some _ \<Rightarrow> bs)"
  define bs2 where "bs2 = (if str_truthy (beacon_name pn b)
                     then obj_modify m (\<lambda>bc. bc\<lparr>name := beacon_name pn b\<rparr>) bs1 else bs1)"
  have nf: "ingest_beacon pn devId r t b d =
      (case rssiValue (adv_rssi b) of
                None \<Rightarrow> Throws
              | Some rv \<Rightarrow>
                  (case detections bc1 of
                     None \<Rightarrow> Throws
                   | Some ds \<Rightarrow>
                       Done (d\<lparr>beacons := Some (obj_modify m
                          (\<lambda>bc. bc\<lparr>detections := Some (obj_set devId
                              (stored_detection r t rv (adv_online b)) ds)\<rparr>) bs2)\<rparr>)))"
    unfolding ingest_beacon_found[OF assms(2,3) bs found] bc1_def bs1_def bs2_def new_def
    by (simp add: Let_def)
  from assms(1) nf obtain rv where rv: "rssiValue (adv_rssi b) = Some rv"
    by (cases "rssiValue (adv_rssi b)") simp_all
  from assms(1) nf rv obtain ds where ds: "detections bc1 = Some ds"
    by (cases "detections bc1") simp_all
  have d': "d' = d\<lparr>beacons := Some (obj_modify m
                (\<lambda>bc. bc\<lparr>detections := Some (obj_set devId
                              (stored_detection r t rv (adv_online b)) ds)\<rparr>) bs2)\<rparr>"
    using assms(1) nf rv ds by simp
  have np: "map_of bs m = None \<Longrightarrow> m \<noteq> ''__proto__''"
    using found by (auto simp: not_inherited_proto)
  have m1: "map_of bs1 m = Some bc1"
  proof (cases "map_of bs m")
    case None
    with np have "map_of (obj_set m new bs) m = Some new"
      by (intro map_of_obj_set_same) simp
    with None show ?thesis by (simp add: bs1_def bc1_def)
  next
    case (Some bc)
    then show ?thesis by (simp add: bs1_def bc1_def)
  qed
  have c1: "bs1 = bs \<or> (m \<noteq> ''__proto__'' \<and> bs1 = obj_set m new bs)"
    using np by (cases "map_of bs m") (simp_all add: bs1_def)
  have c2: "bs2 = bs1 \<or> bs2 = obj_modify m (\<lambda>bc. bc\<lparr>name := beacon_name pn b\<rparr>) bs1"
    by (simp add: bs2_def)
  show ?thesis
    using bs c1 c2 m1 ds rv d' unfolding new_def by blast
qed

lemma ingest_beacon_list_all:
  assumes "list_all (\<lambda>(m, b). P (detections b)) (case beacons d of None \<Rightarrow> [] | Some bs \<Rightarrow> bs)"
    and "ingest_beacon pn devId r t b d = Done d'"
    and "P (Some [])" and "\<And>ds v. P (Some ds) \<Longrightarrow> P (Some (obj_set devId v ds))"
  shows "list_all (\<lambda>(m, b). P (detections b)) (case beacons d' of None \<Rightarrow> [] | Some bs \<Rightarrow> bs)"
proof (cases "str_truthy (mac b)")
  case False
  with assms show ?thesis by (simp add: ingest_beacon_falsy)
next
  case True
  then obtain m where m: "mac b = Some m" "m \<noteq> []"
    by (cases "mac b") simp_all
  let ?Q = "\<lambda>(m, b). P (detections b)"
  from ingest_beacon_form[OF assms(2) m] obtain bs bs1 bs2 rv ds bc1 where
    bs: "beacons d = Some bs" and
    c1: "bs1 = bs \<or> (m \<noteq> ''__proto__'' \<and> bs1 = obj_set m \<lparr>name = beacon_name pn b, first_seen = JNum (Fin t), detections = Some []\<rparr> bs)" and
    c2: "bs2 = bs1 \<or> bs2 = obj_modify m (\<lambda>bc. bc\<lparr>name := beacon_name pn b\<rparr>) bs1" and
    m1: "map_of bs1 m = Some bc1" and ds: "detections bc1 = Some ds" and
    d': "d' = d\<lparr>beacons := Some (obj_modify m
                          (\<lambda>bc. bc\<lparr>detections := Some (obj_set devId
                              (stored_detection r t rv (adv_online b)) ds)\<rparr>) bs2)\<rparr>"
    by blast
  have q0: "list_all ?Q bs"
    using assms(1) by (simp add: bs)
  have q1: "list_all ?Q bs1"
  proof -
    have "list_all ?Q (obj_set m \<lparr>name = beacon_name pn b, first_seen = JNum (Fin t), detections = Some []\<rparr> bs)"
      using q0 by (rule list_all_obj_set) (simp add: assms(3))
    with c1 q0 show ?thesis by auto
  qed
  have pds: "P (Some ds)"
  proof -
    from m1 have "(m, bc1) \<in> set bs1" by (rule map_of_in_set)
    with q1 have "?Q (m, bc1)" by (auto simp: list_all_iff)
    with ds show ?thesis by simp
  qed
  have q2: "list_all ?Q bs2"
  proof -
    have "list_all ?Q (obj_modify m (\<lambda>bc. bc\<lparr>name := beacon_name pn b\<rparr>) bs1)"
      using q1
    proof (rule list_all_obj_modify)
      fix v assume "map_of bs1 m = Some v"
      then have "(m, v) \<in> set bs1" by (rule map_of_in_set)
      with q1 have "?Q (m, v)" by (auto simp: list_all_iff)
      then show "?Q (m, v\<lparr>name := beacon_name pn b\<rparr>)" by simp
    qed
    with c2 q1 show ?thesis by auto
  qed
  have "list_all ?Q (obj_modify m (\<lambda>bc. bc\<lparr>detections := Some (obj_set devId
                              (stored_detection r t rv (adv_online b)) ds)\<rparr>) bs2)"
    using q2
  proof (rule list_all_obj_modify)
    fix v assume "map_of bs2 m = Some v"
    show "?Q (m, v\<lparr>detections := Some (obj_set devId (stored_detection r t rv (adv_online b)) ds)\<rparr>)"
      using pds by (simp add: assms(4))
  qed
  then show ?thesis by (simp add: d')
qed

lemma ingest_beacon_beacon_keys:
  assumes "ingest_beacon pn devId r t b d = Done d'"
    and "''__proto__'' \<notin> fst ` set (case beacons d of None \<Rightarrow> [] | Some bs \<Rightarrow> bs)"
  shows "''__proto__'' \<notin> fst ` set (case beacons d' of None \<Rightarrow> [] | Some bs \<Rightarrow> bs)"
proof (cases "str_truthy (mac b)")
  case False
  with assms show ?thesis by (simp add: ingest_beacon_falsy)
next
  case True
  then obtain m where m: "mac b = Some m" "m \<noteq> []"
    by (cases "mac b") simp_all
  from ingest_beacon_form[OF assms(1) m] obtain bs bs1 bs2 rv ds bc1 where
    bs: "beacons d = Some bs" and
    c1: "bs1 = bs \<or> (m \<noteq> ''__proto__'' \<and> bs1 = obj_set m \<lparr>name = beacon_name pn b, first_seen = JNum (Fin t), detections = Some []\<rparr> bs)" and
    c2: "bs2 = bs1 \<or> bs2 = obj_modify m (\<lambda>bc. bc\<lparr>name := beacon_name pn b\<rparr>) bs1" and
    d': "d' = d\<lparr>beacons := Some (obj_modify m
                          (\<lambda>bc. bc\<lparr>detections := Some (obj_set devId
                              (stored_detection r t rv (adv_online b)) ds)\<rparr>) bs2)\<rparr>"
    by blast
  have k0: "''__proto__'' \<notin> fst ` set bs" using assms(2) by (simp add: bs)
  have k1: "''__proto__'' \<notin> fst ` set bs1"
  proof -
    have "m \<noteq> ''__proto__'' \<Longrightarrow> ''__proto__'' \<notin> fst ` set (obj_set m v bs)" for v
      using k0 by (simp only: keys_obj_set) simp
    with c1 k0 show ?thesis by blast
  qed
  have "map fst bs2 = map fst bs1"
    using c2 by (auto simp: map_fst_obj_modify)
  then have "set (map fst bs2) = set (map fst bs1)"
    by (simp only:)
  then have k2: "''__proto__'' \<notin> fst ` set bs2"
    using k1 by simp
  have "set (map fst (obj_modify m (\<lambda>bc. bc\<lparr>detections := Some (obj_set devId
                              (stored_detection r t rv (adv_online b)) ds)\<rparr>) bs2)) = set (map fst bs2)"
    by (simp only: map_fst_obj_modify)
  with k2 show ?thesis by (simp add: d')
qed

lemma ingest_beacon_one_per_receiver:
  assumes "one_per_receiver d" and "ingest_beacon pn devId r t b d = Done d'"
  shows "one_per_receiver d'"
proof -
  let ?P = "\<lambda>x. case x of None \<Rightarrow> True | Some ds \<Rightarrow> distinct (map fst ds)"
  have "list_all (\<lambda>(m, b). ?P (detections b)) (case beacons d of None \<Rightarrow> [] | Some bs \<Rightarrow> bs)"
    using assms(1) by (simp add: one_per_receiver_def)
  from this assms(2)
  have "list_all (\<lambda>(m, b). ?P (detections b)) (case beacons d' of None \<Rightarrow> [] | Some bs \<Rightarrow> bs)"
    by (rule ingest_beacon_list_all) (simp_all add: distinct_obj_set)
  then show ?thesis by (simp add: one_per_receiver_def)
qed

lemma ingest_beacon_proto_free:
  assumes "proto_free d" and "ingest_beacon pn devId r t b d = Done d'"
  shows "proto_free d'"
proof -
  let ?P = "\<lambda>x. ''__proto__'' \<notin> fst ` set (case x of None \<Rightarrow> [] | Some ds \<Rightarrow> ds)"
  have "list_all (\<lambda>(m, b). ?P (detections b)) (case beacons d of None \<Rightarrow> [] | Some bs \<Rightarrow> bs)"
    using assms(1) by (simp add: proto_free_def)
  from this assms(2)
  have "list_all (\<lambda>(m, b). ?P (detections b)) (case beacons d' of None \<Rightarrow> [] | Some bs \<Rightarrow> bs)"
    by (rule ingest_beacon_list_all) (auto simp: keys_obj_set)
  moreover have "''__proto__'' \<notin> fst ` set (case beacons d' of None \<Rightarrow> [] | Some bs \<Rightarrow> bs)"
    using assms by (intro ingest_beacon_beacon_keys[OF assms(2)]) (simp add: proto_free_def)
  moreover have "devices d' = devices d"
    using assms(2) by (rule ingest_beacon_devices)
  ultimately show ?thesis
    using assms(1) by (simp add: proto_free_def)
qed

lemma ingest_loop_one_per_receiver:
  "one_per_receiver d \<Longrightarrow> ingest_loop pn devId r t bs d = Done d' \<Longrightarrow> one_per_receiver d'"
proof (induction bs arbitrary: d)
  case Nil
  then show ?case by simp
next
  case (Cons b bs)
  from ingest_loop_Done_Cons[OF Cons.prems(2)] obtain d1 where
    s: "ingest_beacon pn devId r t b d = Done d1" and l: "ingest_loop pn devId r t bs d1 = Done d'"
    by blast
  from ingest_beacon_one_per_receiver[OF Cons.prems(1) s] l show ?case by (rule Cons.IH)
qed

lemma ingest_loop_proto_free:
  "proto_free d \<Longrightarrow> ingest_loop pn devId r t bs d = Done d' \<Longrightarrow> proto_free d'"
proof (induction bs arbitrary: d)
  case Nil
  then show ?case by simp
next
  case (Cons b bs)
  from ingest_loop_Done_Cons[OF Cons.prems(2)] obtain d1 where
    s: "ingest_beacon pn devId r t b d = Done d1" and l: "ingest_loop pn devId r t bs d1 = Done d'"
    by blast
  from ingest_beacon_proto_free[OF Cons.prems(1) s] l show ?case by (rule Cons.IH)
qed

lemma handleBLEData_one_per_receiver:
  assumes "one_per_receiver d" and "handleBLEData pn e t d = Saved d'"
  shows "one_per_receiver d'"
proof -
  from handleBLEData_Saved[OF assms(2)] obtain k x where
    l: "ingest_loop pn k (str_or (device_name e) k) t (ev_beacons e) (d\<lparr>devices := Some x\<rparr>) = Done d'"
    by blast
  have "one_per_receiver (d\<lparr>devices := Some x\<rparr>)"
    using assms(1) by (simp add: one_per_receiver_def)
  from this l show ?thesis by (rule ingest_loop_one_per_receiver)
qed

lemma handleBLEData_proto_free:
  assumes "proto_free d" and "handleBLEData pn e t d = Saved d'"
  shows "proto_free d'"
proof -
  from handleBLEData_Saved[OF assms(2)] obtain k devs v where
    devs: "devices d = Some devs" and
    l: "ingest_loop pn k (str_or (device_name e) k) t (ev_beacons e)
          (d\<lparr>devices := Some (obj_set k v devs)\<rparr>) = Done d'"
    by blast
  have "proto_free (d\<lparr>devices := Some (obj_set k v devs)\<rparr>)"
    using assms(1) devs by (auto simp: proto_free_def keys_obj_set)
  from this l show ?thesis by (rule ingest_loop_proto_free)
qed

lemma list_all_map_values:
  "list_all (\<lambda>(m, b). Q b) (map (map_prod id f) xs) = list_all (\<lambda>(m, b). Q (f b)) xs"
  by (induction xs) auto

lemma set_map_values: "fst ` set (map (map_prod id f) xs) = fst ` set xs"
  by (induction xs) auto

lemma keys_option_map_values:
  "fst ` set (case map_option (map (map_prod id f)) x of None \<Rightarrow> [] | Some ds \<Rightarrow> ds)
     = fst ` set (case x of None \<Rightarrow> [] | Some ds \<Rightarrow> ds)"
  by (cases x) (simp_all add: image_image)

lemma distinct_option_map_values:
  "(case map_option (map (map_prod id f)) x of None \<Rightarrow> True | Some ds \<Rightarrow> distinct (map fst ds))
     = (case x of None \<Rightarrow> True | Some ds \<Rightarrow> distinct (map fst ds))"
  by (cases x) (simp_all add: map_fst_map_values)

lemma one_per_receiver_saved: "one_per_receiver (saved_document d) = one_per_receiver d"
  by (cases "beacons d")
     (simp_all add: one_per_receiver_def saved_document_def saved_beacon_def list_all_map_values
                    distinct_option_map_values comp_def map_fst_map_values cong: option.case_cong)

lemma one_per_receiver_load: "one_per_receiver (load_document rt d) = one_per_receiver d"
  by (cases "beacons d")
     (simp_all add: one_per_receiver_def load_document_def decode_document_def decode_beacon_def
                    list_all_map_values distinct_option_map_values Let_def comp_def map_fst_map_values
               cong: option.case_cong)

lemma list_all_keys_map:
  assumes "\<And>b. detections (f b) = map_option (map (map_prod id g)) (detections b)"
  shows "list_all (\<lambda>(m, b). ''__proto__'' \<notin> fst ` set (case detections b of None \<Rightarrow> [] | Some ds \<Rightarrow> ds))
           (map (map_prod id f) xs)
       = list_all (\<lambda>(m, b). ''__proto__'' \<notin> fst ` set (case detections b of None \<Rightarrow> [] | Some ds \<Rightarrow> ds)) xs"
proof (induction xs)
  case Nil
  show ?case by simp
next
  case (Cons x xs)
  obtain m b where x: "x = (m, b)" by (cases x)
  have "fst ` set (case detections (f b) of None \<Rightarrow> [] | Some ds \<Rightarrow> ds)
          = fst ` set (case detections b of None \<Rightarrow> [] | Some ds \<Rightarrow> ds)"
    unfolding assms by (rule keys_option_map_values)
  with Cons.IH show ?case by (simp add: x)
qed

lemma option_list_map_values:
  "(case map_option (map h) x of None \<Rightarrow> [] | Some ds \<Rightarrow> ds)
     = map h (case x of None \<Rightarrow> [] | Some ds \<Rightarrow> ds)"
  by (cases x) simp_all

lemma proto_free_saved: "proto_free (saved_document d) = proto_free d"
proof -
  have a: "(case devices (saved_document d) of None \<Rightarrow> [] | Some ds \<Rightarrow> ds)
             = map (map_prod id saved_device) (case devices d of None \<Rightarrow> [] | Some ds \<Rightarrow> ds)"
    by (cases "devices d") (simp_all add: saved_document_def)
  have b: "(case beacons (saved_document d) of None \<Rightarrow> [] | Some ds \<Rightarrow> ds)
             = map (map_prod id saved_beacon) (case beacons d of None \<Rightarrow> [] | Some ds \<Rightarrow> ds)"
    by (cases "beacons d") (simp_all add: saved_document_def)
  have c: "detections (saved_beacon x) = map_option (map (map_prod id saved_detection)) (detections x)" for x
    by (simp add: saved_beacon_def)
  show ?thesis
    unfolding proto_free_def a b set_map_values list_all_keys_map[of saved_beacon, OF c] ..
qed

lemma load_document_lists:
  "(case devices (load_document rt d) of None \<Rightarrow> [] | Some ds \<Rightarrow> ds)
     = map (map_prod id (decode_device rt)) (case devices d of None \<Rightarrow> [] | Some ds \<Rightarrow> ds)"
  "(case beacons (load_document rt d) of None \<Rightarrow> [] | Some ds \<Rightarrow> ds)
     = map (map_prod id (decode_beacon rt)) (case beacons d of None \<Rightarrow> [] | Some ds \<Rightarrow> ds)"
  by (cases "devices d"; cases "beacons d"; simp add: load_document_def decode_document_def Let_def)+

lemma proto_free_load: "proto_free (load_document rt d) = proto_free d"
proof -
  have c: "detections (decode_beacon rt x) = map_option (map (map_prod id (decode_detection rt))) (detections x)" for x
    by (simp add: decode_beacon_def)
  show ?thesis
    unfolding proto_free_def load_document_lists set_map_values
      list_all_keys_map[of "decode_beacon rt", OF c] ..
qed

lemma ingest_cases:
  obtains (saved) d' where "handleBLEData pn e t (load_document rt d) = Saved d'"
      and "ingest rt e t (d, pn) = (saved_document d', pn)"
  | (kept) pn' where "\<forall>d'. handleBLEData pn e t (load_document rt d) \<noteq> Saved d'"
      and "ingest rt e t (d, pn) = (d, pn')"
  by (cases "handleBLEData pn e t (load_document rt d)") (auto simp: ingest_def)

lemma ingest_one_per_receiver:
  assumes "one_per_receiver (fst p)"
  shows "one_per_receiver (fst (ingest rt e t p))"
proof -
  obtain d pn where p: "p = (d, pn)" by (cases p)
  show ?thesis
  proof (cases rule: ingest_cases[of pn e t rt d])
    case (saved d')
    have "one_per_receiver (load_document rt d)"
      using assms by (simp add: p one_per_receiver_load)
    from this saved(1) have "one_per_receiver d'" by (rule handleBLEData_one_per_receiver)
    with saved(2) show ?thesis by (simp add: p one_per_receiver_saved)
  next
    case (kept pn')
    with assms show ?thesis by (simp add: p)
  qed
qed

lemma ingest_proto_free:
  assumes "proto_free (fst p)"
  shows "proto_free (fst (ingest rt e t p))"
proof -
  obtain d pn where p: "p = (d, pn)" by (cases p)
  show ?thesis
  proof (cases rule: ingest_cases[of pn e t rt d])
    case (saved d')
    have "proto_free (load_document rt d)"
      using assms by (simp add: p proto_free_load)
    from this saved(1) have "proto_free d'" by (rule handleBLEData_proto_free)
    with saved(2) show ?thesis by (simp add: p proto_free_saved)
  next
    case (kept pn')
    with assms show ?thesis by (simp add: p)
  qed
qed

lemma ingest_all_one_per_receiver:
  "one_per_receiver (fst p) \<Longrightarrow> one_per_receiver (fst (ingest_all rt reports p))"
proof (induction reports arbitrary: p)
  case Nil
  then show ?case by simp
next
  case (Cons x reports)
  obtain e t where x: "x = (e, t)" by (cases x)
  from Cons.prems have "one_per_receiver (fst (ingest rt e t p))" by (rule ingest_one_per_receiver)
  then show ?case unfolding x by (simp add: Cons.IH)
qed

lemma ingest_all_proto_free:
  "proto_free (fst p) \<Longrightarrow> proto_free (fst (ingest_all rt reports p))"
proof (induction reports arbitrary: p)
  case Nil
  then show ?case by simp
next
  case (Cons x reports)
  obtain e t where x: "x = (e, t)" by (cases x)
  from Cons.prems have "proto_free (fst (ingest rt e t p))" by (rule ingest_proto_free)
  then show ?case unfolding x by (simp add: Cons.IH)
qed

lemma one_per_receiver_distinct:
  assumes "one_per_receiver d"
  shows "distinct (map fst (detections_of d m))"
proof (cases "beacons d")
  case None
  then show ?thesis by (simp add: detections_of_def)
next
  case (Some bs)
  show ?thesis
  proof (cases "map_of bs m")
    case None
    with Some show ?thesis by (simp add: detections_of_def)
  next
    case b: (Some b)
    then have "(m, b) \<in> set bs" by (rule map_of_in_set)
    with assms Some have "case detections b of None \<Rightarrow> True | Some ds \<Rightarrow> distinct (map fst ds)"
      by (auto simp: one_per_receiver_def list_all_iff)
    with Some b show ?thesis
      by (cases "detections b") (simp_all add: detections_of_def)
  qed
qed

lemma proto_free_detections:
  assumes "proto_free d"
  shows "map_of (detections_of d m) ''__proto__'' = None"
proof (cases "beacons d")
  case None
  then show ?thesis by (simp add: detections_of_def)
next
  case (Some bs)
  show ?thesis
  proof (cases "map_of bs m")
    case None
    with Some show ?thesis by (simp add: detections_of_def)
  next
    case b: (Some b)
    then have mem: "(m, b) \<in> set bs" by (rule map_of_in_set)
    have la: "list_all (\<lambda>(m, b). ''__proto__'' \<notin> fst ` set (case detections b of None \<Rightarrow> [] | Some ds \<Rightarrow> ds)) bs"
      using assms unfolding proto_free_def Some option.case by blast
    from la mem have "case (m, b) of (m, b) \<Rightarrow>
        ''__proto__'' \<notin> fst ` set (case detections b of None \<Rightarrow> [] | Some ds \<Rightarrow> ds)"
      unfolding list_all_iff by (rule bspec)
    then have "''__proto__'' \<notin> fst ` set (case detections b of None \<Rightarrow> [] | Some ds \<Rightarrow> ds)"
      unfolding split_conv .
    then have "map_of (case detections b of None \<Rightarrow> [] | Some ds \<Rightarrow> ds) ''__proto__'' = None"
      by (simp add: map_of_eq_None_iff)
    with Some b show ?thesis
      by (simp add: detections_of_def)
  qed
qed

lemma detections_of_saved:
  "detections_of (saved_document d) m = map (map_prod id saved_detection) (detections_of d m)"
proof (cases "beacons d")
  case None
  then show ?thesis by (simp add: detections_of_def saved_document_def)
next
  case (Some bs)
  show ?thesis
  proof (cases "map_of bs m")
    case None
    with Some show ?thesis
      by (simp add: detections_of_def saved_document_def map_of_map_values)
  next
    case b: (Some b)
    with Some show ?thesis
      by (cases "detections b")
         (simp_all add: detections_of_def saved_document_def map_of_map_values saved_beacon_def)
  qed
qed

lemma keys_at_saved: "keys_at (saved_document d) = keys_at d"
proof
  fix m
  show "keys_at (saved_document d) m = keys_at d m"
  proof (cases "beacons d")
    case None
    then show ?thesis by (simp add: keys_at_def saved_document_def)
  next
    case (Some bs)
    show ?thesis
    proof (cases "map_of bs m")
      case None
      with Some show ?thesis
        by (simp add: keys_at_def saved_document_def map_of_map_values)
    next
      case b: (Some b)
      with Some show ?thesis
        by (cases "detections b")
           (simp_all add: keys_at_def saved_document_def map_of_map_values saved_beacon_def
                          map_fst_map_values)
    qed
  qed
qed

lemma shape_of_load: "shape_of (load_document rt d) = (True, True, keys_at d)"
proof -
  have "keys_at (load_document rt d) m = keys_at d m" for m
  proof (cases "beacons d")
    case None
    then show ?thesis
      by (simp add: keys_at_def load_document_def decode_document_def Let_def)
  next
    case (Some bs)
    show ?thesis
    proof (cases "map_of bs m")
      case None
      with Some show ?thesis
        by (simp add: keys_at_def load_document_def decode_document_def Let_def map_of_map_values)
    next
      case b: (Some b)
      with Some show ?thesis
        by (cases "detections b")
           (simp_all add: keys_at_def load_document_def decode_document_def Let_def
                          map_of_map_values decode_beacon_def map_fst_map_values)
    qed
  qed
  then have "keys_at (load_document rt d) = keys_at d" by (simp add: fun_eq_iff)
  moreover have "devices (load_document rt d) \<noteq> None" "beacons (load_document rt d) \<noteq> None"
    by (cases "devices d"; cases "beacons d";
        simp add: load_document_def decode_document_def Let_def)+
  ultimately show ?thesis by (simp add: shape_of_def)
qed

lemma handle_saved_iff:
  "(\<exists>d'. handleBLEData pn e t d = Saved d') = (shape_handle pn e (shape_of d) \<noteq> None)"
  using shape_handle_correct[of pn e t d, symmetric]
  by (cases "handleBLEData pn e t d") simp_all

lemma handle_not_saved:
  "(\<forall>d'. handleBLEData pn e t d \<noteq> Saved d') = (shape_handle pn e (shape_of d) = None)"
  using shape_handle_correct[of pn e t d, symmetric]
  by (cases "handleBLEData pn e t d") simp_all

lemma handle_saved_shape:
  "handleBLEData pn e t d = Saved d' \<Longrightarrow> shape_handle pn e (shape_of d) = Some (shape_of d')"
  using shape_handle_correct[of pn e t d, symmetric] by simp

lemma shape_handle_flags:
  assumes "shape_handle pn e s = Some s'"
  shows "fst s' \<and> fst (snd s') = fst (snd s)"
proof -
  obtain hasd hasb f where s: "s = (hasd, hasb, f)" by (cases s)
  from assms obtain k where l: "shape_loop pn k (ev_beacons e) (True, hasb, f) = Some s'"
    by (auto simp: shape_handle_def s split: option.splits if_splits)
  from shape_loop_flags[OF l] show ?thesis by (simp add: s)
qed

lemma shape_beacon_proto:
  assumes "shape_beacon pn k b s = Some s'" and "snd (snd s) ''__proto__'' = None"
  shows "snd (snd s') ''__proto__'' = None \<and> mac b \<noteq> Some ''__proto__''"
proof -
  have inh: "inherited pn ''__proto__''"
    by (simp add: inherited_def inherited_names_def)
  obtain hasd hasb f where s: "s = (hasd, hasb, f)" by (cases s)
  show ?thesis
  proof (cases "mac b")
    case None
    with assms show ?thesis by (simp add: shape_beacon_def s)
  next
    case (Some m)
    show ?thesis
    proof (cases "m = ''__proto__''")
      case True
      with assms Some inh show ?thesis
        by (simp add: shape_beacon_def s split: if_splits)
    next
      case False
      with assms Some show ?thesis
        by (auto simp: shape_beacon_def s split: if_splits option.splits)
    qed
  qed
qed

lemma shape_loop_proto:
  "shape_loop pn k bs s = Some s' \<Longrightarrow> snd (snd s) ''__proto__'' = None
   \<Longrightarrow> \<forall>b \<in> set bs. mac b \<noteq> Some ''__proto__''"
proof (induction bs arbitrary: s)
  case Nil
  then show ?case by simp
next
  case (Cons b bs)
  from Cons.prems(1) obtain s1 where s: "shape_beacon pn k b s = Some s1"
    and l: "shape_loop pn k bs s1 = Some s'"
    by (auto split: option.splits)
  from shape_beacon_proto[OF s Cons.prems(2)] Cons.IH[OF l] show ?case by simp
qed

lemma shape_handle_proto:
  assumes "b \<in> set (ev_beacons e)" and "mac b = Some ''__proto__''"
    and "snd (snd s) ''__proto__'' = None"
  shows "shape_handle pn e s = None"
proof (cases "shape_handle pn e s")
  case None
  then show ?thesis .
next
  case (Some s')
  obtain hasd hasb f where s: "s = (hasd, hasb, f)" by (cases s)
  from Some obtain k where l: "shape_loop pn k (ev_beacons e) (True, hasb, f) = Some s'"
    by (auto simp: shape_handle_def s split: option.splits if_splits)
  from shape_loop_proto[OF l] assms show ?thesis by (auto simp: s)
qed

lemma ingest_beacon_Pollutes:
  "ingest_beacon pn k r t b d = Pollutes s \<Longrightarrow> mac b = Some ''__proto__''"
  by (auto simp: ingest_beacon_def Let_def split: if_splits option.splits prod.splits)

lemma ingest_loop_Pollutes:
  "ingest_loop pn k r t bs d = Pollutes s \<Longrightarrow> \<exists>b \<in> set bs. mac b = Some ''__proto__''"
proof (induction bs arbitrary: d)
  case Nil
  then show ?case by simp
next
  case (Cons b bs)
  show ?case
  proof (cases "ingest_beacon pn k r t b d")
    case (Done d1)
    with Cons.prems have "ingest_loop pn k r t bs d1 = Pollutes s" by simp
    from Cons.IH[OF this] show ?thesis by auto
  next
    case Throws
    with Cons.prems show ?thesis by simp
  next
    case (Pollutes s')
    from ingest_beacon_Pollutes[OF this] show ?thesis by simp
  qed
qed

lemma handleBLEData_Polluted:
  "handleBLEData pn e t d = Polluted s \<Longrightarrow> \<exists>b \<in> set (ev_beacons e). mac b = Some ''__proto__''"
  by (auto simp: handleBLEData_def Let_def split: option.splits if_splits step.splits
           dest: ingest_loop_Pollutes)

lemma proto_free_keys_at:
  assumes "proto_free d"
  shows "keys_at d ''__proto__'' = None"
proof (cases "beacons d")
  case None
  then show ?thesis by (simp add: keys_at_def)
next
  case (Some bs)
  from assms have "''__proto__'' \<notin> fst ` set bs"
    unfolding proto_free_def Some option.case by blast
  then have "map_of bs ''__proto__'' = None"
    by (simp add: map_of_eq_None_iff)
  with Some show ?thesis by (simp add: keys_at_def)
qed

lemma replay_cases:
  assumes "proto_free d"
  obtains (both) d1 d2 where
      "handleBLEData pn e t1 (load_document rt d) = Saved d1"
      "ingest rt e t1 (d, pn) = (saved_document d1, pn)"
      "handleBLEData pn e t2 (load_document rt (saved_document d1)) = Saved d2"
      "ingest rt e t2 (saved_document d1, pn) = (saved_document d2, pn)"
      "keys_at d2 = keys_at d1"
  | (neither) pn1 pn2 where
      "ingest rt e t1 (d, pn) = (d, pn1)"
      "\<forall>d'. handleBLEData pn1 e t2 (load_document rt d) \<noteq> Saved d'"
      "ingest rt e t2 (d, pn1) = (d, pn2)"
proof (cases "handleBLEData pn e t1 (load_document rt d)")
  case (Saved d1)
  then have i1: "ingest rt e t1 (d, pn) = (saved_document d1, pn)"
    by (simp add: ingest_def)
  from handle_saved_shape[OF Saved]
  have sh: "shape_handle pn e (True, True, keys_at d) = Some (shape_of d1)"
    by (simp add: shape_of_load)
  from shape_handle_flags[OF sh] have fl: "shape_of d1 = (True, True, keys_at d1)"
    by (simp add: shape_of_def)
  from shape_handle_idem[OF sh, of pn]
  have "shape_handle pn e (shape_of (load_document rt (saved_document d1))) = Some (shape_of d1)"
    by (simp add: shape_of_load keys_at_saved fl)
  moreover from this handle_saved_iff[of pn e t2 "load_document rt (saved_document d1)"]
  obtain d2 where s2: "handleBLEData pn e t2 (load_document rt (saved_document d1)) = Saved d2"
    by auto
  ultimately have "shape_of d2 = shape_of d1"
    using handle_saved_shape[OF s2] by simp
  then have k: "keys_at d2 = keys_at d1" by (simp add: shape_of_def)
  from s2 have i2: "ingest rt e t2 (saved_document d1, pn) = (saved_document d2, pn)"
    by (simp add: ingest_def)
  from Saved i1 s2 i2 k show ?thesis by (rule both)
next
  case Ignored
  then have i1: "ingest rt e t1 (d, pn) = (d, pn)" by (simp add: ingest_def)
  from Ignored have "\<forall>d'. handleBLEData pn e t1 (load_document rt d) \<noteq> Saved d'" by simp
  then have "shape_handle pn e (shape_of (load_document rt d)) = None"
    by (simp only: handle_not_saved)
  then have n: "\<forall>d'. handleBLEData pn e t2 (load_document rt d) \<noteq> Saved d'"
    by (simp only: handle_not_saved)
  then obtain pn2 where "ingest rt e t2 (d, pn) = (d, pn2)"
    by (cases "handleBLEData pn e t2 (load_document rt d)") (auto simp: ingest_def)
  with i1 n show ?thesis by (rule neither)
next
  case Failed
  then have i1: "ingest rt e t1 (d, pn) = (d, pn)" by (simp add: ingest_def)
  from Failed have "\<forall>d'. handleBLEData pn e t1 (load_document rt d) \<noteq> Saved d'" by simp
  then have "shape_handle pn e (shape_of (load_document rt d)) = None"
    by (simp only: handle_not_saved)
  then have n: "\<forall>d'. handleBLEData pn e t2 (load_document rt d) \<noteq> Saved d'"
    by (simp only: handle_not_saved)
  then obtain pn2 where "ingest rt e t2 (d, pn) = (d, pn2)"
    by (cases "handleBLEData pn e t2 (load_document rt d)") (auto simp: ingest_def)
  with i1 n show ?thesis by (rule neither)
next
  case (Polluted s)
  then have i1: "ingest rt e t1 (d, pn) = (d, Some s)" by (simp add: ingest_def)
  from handleBLEData_Polluted[OF Polluted] obtain b where
    b: "b \<in> set (ev_beacons e)" "mac b = Some ''__proto__''"
    by blast
  have "snd (snd (shape_of (load_document rt d))) ''__proto__'' = None"
    using assms by (simp add: shape_of_load proto_free_keys_at)
  from shape_handle_proto[OF b this]
  have "shape_handle (Some s) e (shape_of (load_document rt d)) = None" .
  then have n: "\<forall>d'. handleBLEData (Some s) e t2 (load_document rt d) \<noteq> Saved d'"
    by (simp only: handle_not_saved)
  then obtain pn2 where "ingest rt e t2 (d, Some s) = (d, pn2)"
    by (cases "handleBLEData (Some s) e t2 (load_document rt d)") (auto simp: ingest_def)
  with i1 n show ?thesis by (rule neither)
qed

lemma replay_keys:
  assumes "proto_free d"
  shows "map fst (detections_of (fst (ingest rt e t2 (ingest rt e t1 (d, pn)))) m)
           = map fst (detections_of (fst (ingest rt e t1 (d, pn))) m)"
  using assms
proof (cases rule: replay_cases[where pn=pn and e=e and ?t1.0=t1 and rt=rt and ?t2.0=t2])
  case (both d1 d2)
  then show ?thesis by (simp add: keys_detections_of keys_at_saved)
next
  case (neither pn1 pn2)
  then show ?thesis by simp
qed

lemma stored_without_timestamps:
  "without_timestamps (saved_detection (stored_detection r t rv onl))
     = without_timestamps (saved_detection (stored_detection r t' rv onl))"
  by (simp add: without_timestamps_def stored_detection_def saved_detection_def)

lemma handleBLEData_stores:
  assumes "handleBLEData pn e t d = Saved d'" and "device_id e = Some k" and "k \<noteq> ''__proto__''"
    and "b \<in> set (ev_beacons e)" and "mac b = Some m" and "m \<noteq> []"
  shows "\<exists>b' rv. b' \<in> set (ev_beacons e) \<and> mac b' = Some m \<and> rssiValue (adv_rssi b') = Some rv
           \<and> (\<exists>post. (\<exists>pre. ev_beacons e = pre @ b' # post) \<and> (\<forall>x \<in> set post. mac x \<noteq> Some m))
           \<and> map_of (detections_of d' m) k
               = Some (stored_detection (str_or (device_name e) k) t rv (adv_online b'))"
proof -
  from handleBLEData_Saved[OF assms(1)] assms(2) obtain x where
    l: "ingest_loop pn k (str_or (device_name e) k) t (ev_beacons e) (d\<lparr>devices := Some x\<rparr>) = Done d'"
    by auto
  from last_entry_with_mac[OF assms(4,5)] obtain pre b' post where
    sp: "ev_beacons e = pre @ b' # post" and mb: "mac b' = Some m"
    and post: "\<forall>x \<in> set post. mac x \<noteq> Some m"
    by blast
  from ingest_loop_last[OF l[unfolded sp] mb assms(6) post assms(3)] obtain rv where
    "rssiValue (adv_rssi b') = Some rv"
    "map_of (detections_of d' m) k = Some (stored_detection (str_or (device_name e) k) t rv (adv_online b'))"
    by blast
  moreover have "b' \<in> set (ev_beacons e)" by (simp add: sp)
  ultimately show ?thesis using mb sp post by blast
qed

lemma handleBLEData_stores_last:
  assumes "handleBLEData pn e t d = Saved d'" and "device_id e = Some k" and "k \<noteq> ''__proto__''"
    and "ev_beacons e = pre @ b # post" and "mac b = Some m" and "m \<noteq> []"
    and "\<forall>x \<in> set post. mac x \<noteq> Some m"
  shows "\<exists>rv. rssiValue (adv_rssi b) = Some rv
           \<and> map_of (detections_of d' m) k
               = Some (stored_detection (str_or (device_name e) k) t rv (adv_online b))"
proof -
  from handleBLEData_Saved[OF assms(1)] assms(2) obtain x where
    l: "ingest_loop pn k (str_or (device_name e) k) t (ev_beacons e) (d\<lparr>devices := Some x\<rparr>) = Done d'"
    by auto
  from ingest_loop_last[OF l[unfolded assms(4)] assms(5,6,7,3)] show ?thesis .
qed

lemma replay_values:
  assumes "proto_free d" and "device_id e = Some k"
    and "b \<in> set (ev_beacons e)" and "mac b = Some m" and "m \<noteq> []"
  shows "map_option without_timestamps
           (map_of (detections_of (fst (ingest rt e t2 (ingest rt e t1 (d, pn)))) m) k)
       = map_option without_timestamps
           (map_of (detections_of (fst (ingest rt e t1 (d, pn))) m) k)"
  using assms(1)
proof (cases rule: replay_cases[where pn=pn and e=e and ?t1.0=t1 and rt=rt and ?t2.0=t2])
  case (neither pn1 pn2)
  then show ?thesis by simp
next
  case (both d1 d2)
  show ?thesis
  proof (cases "k = ''__proto__''")
    case True
    have "proto_free (fst (ingest rt e t1 (d, pn)))"
      using assms(1) by (intro ingest_proto_free) simp
    moreover from this have "proto_free (fst (ingest rt e t2 (ingest rt e t1 (d, pn))))"
      by (rule ingest_proto_free)
    ultimately show ?thesis
      unfolding True by (simp only: proto_free_detections)
  next
    case False
    from last_entry_with_mac[OF assms(3,4)] obtain pre b' post where
      sp: "ev_beacons e = pre @ b' # post" and mb: "mac b' = Some m"
      and post: "\<forall>x \<in> set post. mac x \<noteq> Some m"
      by blast
    from handleBLEData_stores_last[OF both(1) assms(2) False sp mb assms(5) post] obtain rv1 where
      "rssiValue (adv_rssi b') = Some rv1"
      "map_of (detections_of d1 m) k = Some (stored_detection (str_or (device_name e) k) t1 rv1 (adv_online b'))"
      by blast
    moreover
    from handleBLEData_stores_last[OF both(3) assms(2) False sp mb assms(5) post] obtain rv2 where
      "rssiValue (adv_rssi b') = Some rv2"
      "map_of (detections_of d2 m) k = Some (stored_detection (str_or (device_name e) k) t2 rv2 (adv_online b'))"
      by blast
    ultimately show ?thesis
      using both(2,4)
      by (simp add: detections_of_saved map_of_map_values stored_without_timestamps)
  qed
qed

lemma saved_detection_timestamp:
  assumes "handleBLEData pn e t d = Saved d'" and "device_id e = Some k" and "k \<noteq> ''__proto__''"
    and "b \<in> set (ev_beacons e)" and "mac b = Some m" and "m \<noteq> []"
  shows "map_option update_time (map_of (detections_of (saved_document d') m) k) = Some (JNum (Fin t))"
proof -
  from handleBLEData_stores[OF assms] obtain b' :: adv_beacon and rv where
    "map_of (detections_of d' m) k
               = Some (stored_detection (str_or (device_name e) k) t rv (adv_online b'))"
    by auto
  then show ?thesis
    by (simp add: detections_of_saved map_of_map_values stored_detection_def saved_detection_def)
qed

text \<open>
  C1. \<open>data\<close> is the document in the file and \<open>pn\<close> the state of
  \<^verbatim>\<open>Object.prototype.name\<close>; every report is ingested by loading the file, and
  saving it where ingestion gets that far. From a document with at most one Detection per
  receiver in every object and no entry \<^verbatim>\<open>__proto__\<close>, every sequence of reports
  leads to such a document. Replaying a report at any time \<open>t2\<close> after it was
  ingested at \<open>t1\<close> leaves every Detection mapping with the same receiver identities
  in the same order, hence the same number of Detections; the Detection of every
  (object, receiver) pair of the report is the same up to its two timestamps; and where
  the replay is saved, the Detections of its records carry the time \<open>t2\<close>, for
  every receiver identity but \<^verbatim>\<open>__proto__\<close>, for which no Detection is stored.
\<close>

theorem ingest_one_detection_per_receiver:
  assumes "one_per_receiver data" and "proto_free data"
  shows "one_per_receiver (fst (ingest_all rt reports (data, pn)))
       \<and> proto_free (fst (ingest_all rt reports (data, pn)))
       \<and> distinct (map fst (detections_of (fst (ingest_all rt reports (data, pn))) m))
       \<and> length (detections_of (fst (ingest rt e t2 (ingest rt e t1 (data, pn)))) m)
           = length (detections_of (fst (ingest rt e t1 (data, pn))) m)
       \<and> map fst (detections_of (fst (ingest rt e t2 (ingest rt e t1 (data, pn)))) m)
           = map fst (detections_of (fst (ingest rt e t1 (data, pn))) m)
       \<and> (device_id e = Some k \<and> b \<in> set (ev_beacons e) \<and> mac b = Some m \<and> m \<noteq> []
          \<longrightarrow> map_option without_timestamps
                 (map_of (detections_of (fst (ingest rt e t2 (ingest rt e t1 (data, pn)))) m) k)
              = map_option without_timestamps
                 (map_of (detections_of (fst (ingest rt e t1 (data, pn))) m) k))
       \<and> (handleBLEData (snd (ingest rt e t1 (data, pn))) e t2
               (load_document rt (fst (ingest rt e t1 (data, pn)))) = Saved d2
            \<and> device_id e = Some k \<and> k \<noteq> ''__proto__''
            \<and> b \<in> set (ev_beacons e) \<and> mac b = Some m \<and> m \<noteq> []
          \<longrightarrow> map_option update_time
                 (map_of (detections_of (fst (ingest rt e t2 (ingest rt e t1 (data, pn)))) m) k)
              = Some (JNum (Fin t2)))"
proof -
  have inv: "one_per_receiver (fst (ingest_all rt reports (data, pn)))"
    using assms(1) by (intro ingest_all_one_per_receiver) simp
  have pf: "proto_free (fst (ingest_all rt reports (data, pn)))"
    using assms(2) by (intro ingest_all_proto_free) simp
  have keys: "map fst (detections_of (fst (ingest rt e t2 (ingest rt e t1 (data, pn)))) m)
           = map fst (detections_of (fst (ingest rt e t1 (data, pn))) m)"
    using assms(2) by (rule replay_keys)
  have "length (map fst (detections_of (fst (ingest rt e t2 (ingest rt e t1 (data, pn)))) m))
           = length (map fst (detections_of (fst (ingest rt e t1 (data, pn))) m))"
    by (simp only: keys)
  then have len: "length (detections_of (fst (ingest rt e t2 (ingest rt e t1 (data, pn)))) m)
           = length (detections_of (fst (ingest rt e t1 (data, pn))) m)"
    by (simp only: length_map)
  have vals: "device_id e = Some k \<and> b \<in> set (ev_beacons e) \<and> mac b = Some m \<and> m \<noteq> []
          \<longrightarrow> map_option without_timestamps
                 (map_of (detections_of (fst (ingest rt e t2 (ingest rt e t1 (data, pn)))) m) k)
              = map_option without_timestamps
                 (map_of (detections_of (fst (ingest rt e t1 (data, pn))) m) k)"
    using replay_values[OF assms(2)] by blast
  have ts: "handleBLEData (snd (ingest rt e t1 (data, pn))) e t2
               (load_document rt (fst (ingest rt e t1 (data, pn)))) = Saved d2
            \<and> device_id e = Some k \<and> k \<noteq> ''__proto__''
            \<and> b \<in> set (ev_beacons e) \<and> mac b = Some m \<and> m \<noteq> []
          \<longrightarrow> map_option update_time
                 (map_of (detections_of (fst (ingest rt e t2 (ingest rt e t1 (data, pn)))) m) k)
              = Some (JNum (Fin t2))"
  proof
    let ?p = "ingest rt e t1 (data, pn)"
    assume h: "handleBLEData (snd ?p) e t2 (load_document rt (fst ?p)) = Saved d2
            \<and> device_id e = Some k \<and> k \<noteq> ''__proto__''
            \<and> b \<in> set (ev_beacons e) \<and> mac b = Some m \<and> m \<noteq> []"
    then have "fst (ingest rt e t2 ?p) = saved_document d2"
      by (simp add: ingest_def)
    moreover from h have "map_option update_time (map_of (detections_of (saved_document d2) m) k)
        = Some (JNum (Fin t2))"
      by (intro saved_detection_timestamp[of "snd ?p" e t2 "load_document rt (fst ?p)" d2 k b m]) simp_all
    ultimately show "map_option update_time (map_of (detections_of (fst (ingest rt e t2 ?p)) m) k)
        = Some (JNum (Fin t2))"
      by simp
  qed
  show ?thesis
    using inv pf one_per_receiver_distinct[OF inv] len keys vals ts
    by blast
qed

theorem ingest_one_detection_per_receiver_witness:
  "one_per_receiver empty_document \<and> proto_free empty_document
   \<and> one_per_receiver (fst (ingest_all utc_host
        [(\<lparr>device_id = Some ''R1'', device_name = None, device_type = None,
           ev_batch = Undefined, ev_total_batches = Undefined,
           ev_beacons = [\<lparr>mac = Some ''AA:BB'', adv_name = Some ''X'', adv_rssi = JNum (Fin (- 55)),
                          adv_online = JBool True\<rparr>]\<rparr>, 1000),
         (\<lparr>device_id = Some ''R2'', device_name = None, device_type = None,
           ev_batch = Undefined, ev_total_batches = Undefined,
           ev_beacons = [\<lparr>mac = Some ''AA:BB'', adv_name = None, adv_rssi = JNum (Fin (- 70)),
                          adv_online = JBool True\<rparr>]\<rparr>, 1500)] (empty_document, None)))
   \<and> length (detections_of (fst
        (ingest utc_host \<lparr>device_id = Some ''R1'', device_name = None, device_type = None,
           ev_batch = Undefined, ev_total_batches = Undefined,
           ev_beacons = [\<lparr>mac = Some ''AA:BB'', adv_name = Some ''X'', adv_rssi = JNum (Fin (- 55)),
                          adv_online = JBool True\<rparr>]\<rparr> 3000
          (ingest utc_host \<lparr>device_id = Some ''R1'', device_name = None, device_type = None,
           ev_batch = Undefined, ev_total_batches = Undefined,
           ev_beacons = [\<lparr>mac = Some ''AA:BB'', adv_name = Some ''X'', adv_rssi = JNum (Fin (- 55)),
                          adv_online = JBool True\<rparr>]\<rparr> 2000 (empty_document, None)))) ''AA:BB'') = 1
   \<and> map_option update_time (map_of (detections_of (fst
        (ingest utc_host \<lparr>device_id = Some ''R1'', device_name = None, device_type = None,
           ev_batch = Undefined, ev_total_batches = Undefined,
           ev_beacons = [\<lparr>mac = Some ''AA:BB'', adv_name = Some ''X'', adv_rssi = JNum (Fin (- 55)),
                          adv_online = JBool True\<rparr>]\<rparr> 3000
          (ingest utc_host \<lparr>device_id = Some ''R1'', device_name = None, device_type = None,
           ev_batch = Undefined, ev_total_batches = Undefined,
           ev_beacons = [\<lparr>mac = Some ''AA:BB'', adv_name = Some ''X'', adv_rssi = JNum (Fin (- 55)),
                          adv_online = JBool True\<rparr>]\<rparr> 2000 (empty_document, None)))) ''AA:BB'') ''R1'')
       = Some (JNum (Fin 3000))"
proof -
  let ?b = "\<lparr>mac = Some ''AA:BB'', adv_name = Some ''X'', adv_rssi = JNum (Fin (- 55)),
              adv_online = JBool True\<rparr>"
  let ?e = "\<lparr>device_id = Some ''R1'', device_name = None, device_type = None,
           ev_batch = Undefined, ev_total_batches = Undefined, ev_beacons = [?b]\<rparr>"
  let ?second = "\<lparr>device_id = Some ''R2'', device_name = None, device_type = None,
           ev_batch = Undefined, ev_total_batches = Undefined,
           ev_beacons = [\<lparr>mac = Some ''AA:BB'', adv_name = None, adv_rssi = JNum (Fin (- 70)),
                          adv_online = JBool True\<rparr>]\<rparr>"
  let ?first = "ingest utc_host ?e 2000 (empty_document, None)"
  have h1: "one_per_receiver empty_document"
    by (simp add: one_per_receiver_def empty_document_def)
  have h2: "proto_free empty_document"
    by (simp add: proto_free_def empty_document_def)
  have one: "length (detections_of (fst ?first) ''AA:BB'') = 1"
    by code_simp
  have "case handleBLEData (snd ?first) ?e 3000 (load_document utc_host (fst ?first)) of
          Saved d \<Rightarrow> True | _ \<Rightarrow> False"
    by code_simp
  then obtain d2 where
    "handleBLEData (snd ?first) ?e 3000 (load_document utc_host (fst ?first)) = Saved d2"
    by (cases "handleBLEData (snd ?first) ?e 3000 (load_document utc_host (fst ?first))") simp_all
  then have prem: "handleBLEData (snd ?first) ?e 3000 (load_document utc_host (fst ?first)) = Saved d2
            \<and> device_id ?e = Some ''R1'' \<and> ''R1'' \<noteq> ''__proto__''
            \<and> ?b \<in> set (ev_beacons ?e) \<and> mac ?b = Some ''AA:BB'' \<and> ''AA:BB'' \<noteq> []"
    by simp
  from ingest_one_detection_per_receiver
         [OF h1 h2, of utc_host "[(?e, 1000), (?second, 1500)]" None "''AA:BB''" ?e 3000 2000 "''R1''" ?b d2]
  show ?thesis using h1 h2 one prem by simp
qed

lemma rssiValue_None: "(rssiValue r = None) = (r = Null)"
  by (cases r) (simp_all add: rssiValue_def)

lemma rssiValue_JObj:
  "rssiValue (JObj kvs) =
     Some (if truthy (get_prop kvs ''average'') then get_prop kvs ''average''
           else if truthy (get_prop kvs ''current'') then get_prop kvs ''current''
           else JObj kvs)"
  by (simp add: rssiValue_def js_or_def)

lemma shape_beacon_total:
  assumes "\<forall>m. f m \<noteq> Some None" and "str_truthy (mac b) \<longrightarrow> adv_rssi b \<noteq> Null"
    and "case mac b of None \<Rightarrow> True | Some m \<Rightarrow> \<not> inherited pn m"
  shows "\<exists>f'. shape_beacon pn k b (hasd, True, f) = Some (hasd, True, f') \<and> (\<forall>m. f' m \<noteq> Some None)"
proof (cases "mac b")
  case None
  with assms(1) show ?thesis by (simp add: shape_beacon_def)
next
  case (Some m)
  show ?thesis
  proof (cases "m = []")
    case True
    with Some assms(1) show ?thesis by (simp add: shape_beacon_def)
  next
    case False
    with Some assms(2) have rv: "rssiValue (adv_rssi b) \<noteq> None"
      by (simp add: rssiValue_None)
    from Some assms(3) have ni: "\<not> inherited pn m" by simp
    show ?thesis
    proof (cases "f m")
      case None
      with Some False rv ni assms(1) show ?thesis by (simp add: shape_beacon_def)
    next
      case fm: (Some v)
      with assms(1) obtain ks where "v = Some ks" by (cases v) auto
      with fm Some False rv assms(1) show ?thesis by (simp add: shape_beacon_def)
    qed
  qed
qed

lemma shape_loop_total:
  assumes "\<forall>m. f m \<noteq> Some None" and "\<forall>b \<in> set bs. str_truthy (mac b) \<longrightarrow> adv_rssi b \<noteq> Null"
    and "\<forall>b \<in> set bs. case mac b of None \<Rightarrow> True | Some m \<Rightarrow> \<not> inherited pn m"
  shows "shape_loop pn k bs (hasd, True, f) \<noteq> None"
  using assms
proof (induction bs arbitrary: f)
  case Nil
  show ?case by simp
next
  case (Cons b bs)
  from shape_beacon_total[of f b pn k hasd] Cons.prems obtain f' where
    s: "shape_beacon pn k b (hasd, True, f) = Some (hasd, True, f')" and f': "\<forall>m. f' m \<noteq> Some None"
    by auto
  from Cons.IH[OF f'] Cons.prems(2,3) s show ?case by simp
qed

lemma well_shaped_keys: "well_shaped d \<Longrightarrow> keys_at d m \<noteq> Some None"
proof -
  assume w: "well_shaped d"
  then obtain bs where bs: "beacons d = Some bs" and all: "list_all (\<lambda>(m, b). detections b \<noteq> None) bs"
    by (cases "beacons d") (simp_all add: well_shaped_def)
  show ?thesis
  proof (cases "map_of bs m")
    case None
    with bs show ?thesis by (simp add: keys_at_def)
  next
    case (Some b)
    then have "(m, b) \<in> set bs" by (rule map_of_in_set)
    with all have "detections b \<noteq> None" by (auto simp: list_all_iff)
    with bs Some show ?thesis by (auto simp: keys_at_def)
  qed
qed

lemma handleBLEData_succeeds:
  assumes "device_id e = Some k" and "k \<noteq> []" and "ev_beacons e \<noteq> []"
    and "well_shaped data" and "no_null_rssi e" and "plain_addresses pn e"
  shows "\<exists>data'. handleBLEData pn e now data = Saved data'"
proof -
  have nn: "\<forall>b \<in> set (ev_beacons e). str_truthy (mac b) \<longrightarrow> adv_rssi b \<noteq> Null"
    using assms(5) by (auto simp: no_null_rssi_def list_all_iff)
  have pl: "\<forall>b \<in> set (ev_beacons e). case mac b of None \<Rightarrow> True | Some m \<Rightarrow> \<not> inherited pn m"
    using assms(6) by (simp add: plain_addresses_def list_all_iff)
  have ks: "\<forall>m. keys_at data m \<noteq> Some None"
    using assms(4) by (simp add: well_shaped_keys)
  from assms(4) have sh: "shape_of data = (True, True, keys_at data)"
    by (cases "beacons data") (auto simp: well_shaped_def shape_of_def)
  have "shape_handle pn e (shape_of data) \<noteq> None"
    unfolding sh using assms(1,2,3) shape_loop_total[OF ks nn pl, of k True]
    by (simp add: shape_handle_def)
  then show ?thesis by (simp add: handle_saved_iff)
qed

lemma handleBLEData_receiver:
  assumes "handleBLEData pn e now data = Saved data'" and "device_id e \<noteq> Some ''__proto__''"
  shows "\<exists>k devs. device_id e = Some k \<and> devices data' = Some devs
           \<and> map_of devs k = Some \<lparr>dev_name = str_or (device_name e) k,
                         dev_type = str_or (device_type e) ''ESP32'',
                         update = JNum (Fin now),
                         batch = js_or (ev_batch e) (JNum (Fin 1)),
                         total_batches = js_or (ev_total_batches e) (JNum (Fin 1))\<rparr>"
proof -
  from handleBLEData_Saved[OF assms(1)] obtain k devs where
    k: "device_id e = Some k" and
    l: "ingest_loop pn k (str_or (device_name e) k) now (ev_beacons e)
                (data\<lparr>devices := Some (obj_set k
                        \<lparr>dev_name = str_or (device_name e) k,
                         dev_type = str_or (device_type e) ''ESP32'',
                         update = JNum (Fin now),
                         batch = js_or (ev_batch e) (JNum (Fin 1)),
                         total_batches = js_or (ev_total_batches e) (JNum (Fin 1))\<rparr> devs)\<rparr>) = Done data'"
    by blast
  from k assms(2) have "k \<noteq> ''__proto__''" by simp
  then have "map_of (obj_set k
                        \<lparr>dev_name = str_or (device_name e) k,
                         dev_type = str_or (device_type e) ''ESP32'',
                         update = JNum (Fin now),
                         batch = js_or (ev_batch e) (JNum (Fin 1)),
                         total_batches = js_or (ev_total_batches e) (JNum (Fin 1))\<rparr> devs) k
        = Some \<lparr>dev_name = str_or (device_name e) k,
                         dev_type = str_or (device_type e) ''ESP32'',
                         update = JNum (Fin now),
                         batch = js_or (ev_batch e) (JNum (Fin 1)),
                         total_batches = js_or (ev_total_batches e) (JNum (Fin 1))\<rparr>"
    by (intro map_of_obj_set_same) simp
  with ingest_loop_devices[OF l] k show ?thesis
    by simp
qed

lemma handleBLEData_Ignored:
  "\<not> str_truthy (device_id e) \<or> ev_beacons e = [] \<Longrightarrow> handleBLEData pn e now data = Ignored"
  by (cases "device_id e") (auto simp: handleBLEData_def)

text \<open>
  Addresses and receiver identities that name inherited properties. At the address
  \<^verbatim>\<open>constructor\<close> the lookup finds the inherited function, no object is created, and
  the report is not saved. From the receiver \<^verbatim>\<open>__proto__\<close> the report is saved, with
  neither a Receiver record nor a Detection. At the address \<^verbatim>\<open>__proto__\<close> the name of
  the record is written to \<^verbatim>\<open>Object.prototype\<close> and the report is not saved.
\<close>

lemma inherited_address_example:
  "handleBLEData None \<lparr>device_id = Some ''R1'', device_name = None, device_type = None,
       ev_batch = Undefined, ev_total_batches = Undefined,
       ev_beacons = [\<lparr>mac = Some ''constructor'', adv_name = Some ''X'', adv_rssi = JNum (Fin (- 55)),
                      adv_online = JBool True\<rparr>]\<rparr> 1000 empty_document = Failed"
  by code_simp

lemma proto_receiver_example:
  "handleBLEData None \<lparr>device_id = Some ''__proto__'', device_name = None, device_type = None,
       ev_batch = Undefined, ev_total_batches = Undefined,
       ev_beacons = [\<lparr>mac = Some ''AA:BB'', adv_name = Some ''X'', adv_rssi = JNum (Fin (- 55)),
                      adv_online = JBool True\<rparr>]\<rparr> 1000 empty_document
   = Saved \<lparr>devices = Some [],
            beacons = Some [(''AA:BB'', \<lparr>name = Some ''X'', first_seen = JNum (Fin 1000),
                                         detections = Some []\<rparr>)]\<rparr>"
  by code_simp

lemma proto_address_example:
  "handleBLEData None \<lparr>device_id = Some ''R1'', device_name = None, device_type = None,
       ev_batch = Undefined, ev_total_batches = Undefined,
       ev_beacons = [\<lparr>mac = Some ''__proto__'', adv_name = Some ''X'', adv_rssi = JNum (Fin (- 55)),
                      adv_online = JBool True\<rparr>]\<rparr> 1000 empty_document = Polluted ''X''"
  by code_simp

text \<open>
  C3, as the claim states it: a report from receiver \<open>R1\<close> with an empty list of
  observed objects. It is ignored, and the Registry has no record of \<open>R1\<close>.
\<close>

theorem empty_report_not_upserted_counterexample:
  "handleBLEData None \<lparr>device_id = Some ''R1'', device_name = Some ''Hall'', device_type = None,
       ev_batch = Undefined, ev_total_batches = Undefined, ev_beacons = []\<rparr> 1000
       (load_document utc_host empty_document) = Ignored
   \<and> devices (fst (ingest utc_host \<lparr>device_id = Some ''R1'', device_name = Some ''Hall'', device_type = None,
       ev_batch = Undefined, ev_total_batches = Undefined, ev_beacons = []\<rparr> 1000 (empty_document, None)))
     = Some []"
  by (simp add: handleBLEData_def ingest_def empty_document_def)

text \<open>
  C3, amended. Whenever ingestion saves a report whose receiver identity is not
  \<^verbatim>\<open>__proto__\<close>, the Receiver record of that identity in the saved document holds the
  name (or the identity), the type (or \<^verbatim>\<open>ESP32\<close>), the time \<open>now\<close> and the batch
  fields (or 1). It saves for every report with a non-empty receiver identity and a
  non-empty list of observed objects, on a well-shaped document, when no record with an
  address carries a null signal strength and no address names an inherited property. A
  report without a receiver identity, or with an empty list of observed objects, is
  ignored and nothing changes.
\<close>

theorem receiver_upserted:
  "(handleBLEData pn e now data = Saved data' \<and> device_id e \<noteq> Some ''__proto__''
      \<longrightarrow> (\<exists>k devs. device_id e = Some k \<and> devices data' = Some devs
             \<and> map_of devs k = Some \<lparr>dev_name = str_or (device_name e) k,
                         dev_type = str_or (device_type e) ''ESP32'',
                         update = JNum (Fin now),
                         batch = js_or (ev_batch e) (JNum (Fin 1)),
                         total_batches = js_or (ev_total_batches e) (JNum (Fin 1))\<rparr>))
   \<and> (str_truthy (device_id e) \<and> ev_beacons e \<noteq> [] \<and> well_shaped data \<and> no_null_rssi e
        \<and> plain_addresses pn e
      \<longrightarrow> (\<exists>d. handleBLEData pn e now data = Saved d))
   \<and> (\<not> str_truthy (device_id e) \<or> ev_beacons e = []
      \<longrightarrow> handleBLEData pn e now data = Ignored \<and> ingest rt e now (file, pn) = (file, pn))"
proof -
  have a: "str_truthy (device_id e) \<and> ev_beacons e \<noteq> [] \<and> well_shaped data \<and> no_null_rssi e
        \<and> plain_addresses pn e
      \<longrightarrow> (\<exists>d. handleBLEData pn e now data = Saved d)"
  proof
    assume h: "str_truthy (device_id e) \<and> ev_beacons e \<noteq> [] \<and> well_shaped data \<and> no_null_rssi e
        \<and> plain_addresses pn e"
    then obtain k where "device_id e = Some k" "k \<noteq> []"
      by (cases "device_id e") simp_all
    with h show "\<exists>d. handleBLEData pn e now data = Saved d"
      by (intro handleBLEData_succeeds) simp_all
  qed
  have b: "\<not> str_truthy (device_id e) \<or> ev_beacons e = []
      \<longrightarrow> handleBLEData pn e now data = Ignored \<and> ingest rt e now (file, pn) = (file, pn)"
    by (auto simp: handleBLEData_Ignored ingest_def)
  from a b handleBLEData_receiver show ?thesis by blast
qed

theorem receiver_upserted_witness:
  "(\<exists>d devs. handleBLEData None \<lparr>device_id = Some ''R1'', device_name = Some ''Hall'', device_type = None,
        ev_batch = JNum (Fin 2), ev_total_batches = JNum (Fin 3),
        ev_beacons = [\<lparr>mac = Some ''AA:BB'', adv_name = Some ''X'', adv_rssi = JNum (Fin (- 55)),
                       adv_online = JBool True\<rparr>]\<rparr> 1000 empty_document = Saved d
      \<and> devices d = Some devs
      \<and> map_of devs ''R1'' = Some \<lparr>dev_name = ''Hall'', dev_type = ''ESP32'', update = JNum (Fin 1000),
                                     batch = JNum (Fin 2), total_batches = JNum (Fin 3)\<rparr>)
   \<and> handleBLEData None \<lparr>device_id = None, device_name = Some ''Hall'', device_type = None,
        ev_batch = JNum (Fin 2), ev_total_batches = JNum (Fin 3),
        ev_beacons = [\<lparr>mac = Some ''AA:BB'', adv_name = Some ''X'', adv_rssi = JNum (Fin (- 55)),
                       adv_online = JBool True\<rparr>]\<rparr> 1000 empty_document = Ignored"
proof -
  let ?bs = "[\<lparr>mac = Some ''AA:BB'', adv_name = Some ''X'', adv_rssi = JNum (Fin (- 55)),
                       adv_online = JBool True\<rparr>]"
  let ?e = "\<lparr>device_id = Some ''R1'', device_name = Some ''Hall'', device_type = None,
        ev_batch = JNum (Fin 2), ev_total_batches = JNum (Fin 3), ev_beacons = ?bs\<rparr>"
  let ?anon = "\<lparr>device_id = None, device_name = Some ''Hall'', device_type = None,
        ev_batch = JNum (Fin 2), ev_total_batches = JNum (Fin 3), ev_beacons = ?bs\<rparr>"
  have a1: "well_shaped empty_document"
    by (simp add: well_shaped_def empty_document_def)
  have a2: "no_null_rssi ?e"
    by (simp add: no_null_rssi_def)
  have a3: "plain_addresses None ?e"
    by (simp add: plain_addresses_def inherited_def inherited_names_def)
  have h: "str_truthy (device_id ?e) \<and> ev_beacons ?e \<noteq> [] \<and> well_shaped empty_document \<and> no_null_rssi ?e
            \<and> plain_addresses None ?e"
    using a1 a2 a3 by simp
  have hanon: "\<not> str_truthy (device_id ?anon) \<or> ev_beacons ?anon = []"
    by simp
  from h receiver_upserted [of None ?e 1000 empty_document]
  obtain d where d: "handleBLEData None ?e 1000 empty_document = Saved d"
    by blast
  have np: "device_id ?e \<noteq> Some ''__proto__''" by simp
  from d np receiver_upserted [of None ?e 1000 empty_document d]
  have "\<exists>devs. devices d = Some devs
      \<and> map_of devs ''R1'' = Some \<lparr>dev_name = ''Hall'', dev_type = ''ESP32'', update = JNum (Fin 1000),
                                     batch = JNum (Fin 2), total_batches = JNum (Fin 3)\<rparr>"
    by (simp add: str_or_def js_or_def)
  moreover from hanon receiver_upserted [of None ?anon 1000 empty_document]
  have "handleBLEData None ?anon 1000 empty_document = Ignored"
    by blast
  ultimately show ?thesis using d by blast
qed

text \<open>
  C5, as the claim states it: a record whose signal strength is a structure with
  neither reading. The value stored in the Detection is the structure itself, not a
  number.
\<close>

theorem structured_rssi_kept_counterexample:
  "map_option rssi (map_of (detections_of
      (fst (ingest utc_host \<lparr>device_id = Some ''R1'', device_name = None, device_type = None,
               ev_batch = Undefined, ev_total_batches = Undefined,
               ev_beacons = [\<lparr>mac = Some ''AA:BB'', adv_name = Some ''X'', adv_rssi = JObj [],
                              adv_online = JBool True\<rparr>]\<rparr> 1000 (empty_document, None))) ''AA:BB'') ''R1'')
   = Some (JObj [])"
  by code_simp

text \<open>
  C5, amended. For the last record with a given address of a saved report whose receiver
  identity is not \<^verbatim>\<open>__proto__\<close>, when the signal strength of the record is a structure,
  the Detection in the saved document stores the \<^verbatim>\<open>average\<close> reading when that is
  truthy, otherwise the \<^verbatim>\<open>current\<close> reading when that is truthy, otherwise the
  structure itself.
\<close>

theorem structured_rssi_normalised:
  assumes "handleBLEData pn e now data = Saved data'" and "device_id e = Some k"
    and "k \<noteq> ''__proto__''"
    and "ev_beacons e = pre @ b # post" and "mac b = Some m" and "m \<noteq> []"
    and "\<forall>x \<in> set post. mac x \<noteq> Some m" and "adv_rssi b = JObj kvs"
  shows "map_option rssi (map_of (detections_of data' m) k)
           = Some (if truthy (get_prop kvs ''average'') then get_prop kvs ''average''
                   else if truthy (get_prop kvs ''current'') then get_prop kvs ''current''
                   else JObj kvs)"
proof -
  from handleBLEData_stores_last[OF assms(1,2,3,4,5,6,7)] show ?thesis
    unfolding assms(8) rssiValue_JObj by (auto simp: stored_detection_def)
qed

theorem structured_rssi_normalised_witness:
  "\<exists>d. handleBLEData None \<lparr>device_id = Some ''R1'', device_name = None, device_type = None,
               ev_batch = Undefined, ev_total_batches = Undefined,
               ev_beacons = [\<lparr>mac = Some ''AA:BB'', adv_name = Some ''X'',
                              adv_rssi = JObj [(''average'', JNum (Fin (- 58))), (''current'', JNum (Fin (- 60)))],
                              adv_online = JBool True\<rparr>]\<rparr> 1000 empty_document = Saved d
     \<and> map_option rssi (map_of (detections_of d ''AA:BB'') ''R1'') = Some (JNum (Fin (- 58)))"
proof -
  let ?kvs = "[(''average'', JNum (Fin (- 58))), (''current'', JNum (Fin (- 60)))]"
  let ?b = "\<lparr>mac = Some ''AA:BB'', adv_name = Some ''X'', adv_rssi = JObj ?kvs, adv_online = JBool True\<rparr>"
  let ?e = "\<lparr>device_id = Some ''R1'', device_name = None, device_type = None,
               ev_batch = Undefined, ev_total_batches = Undefined, ev_beacons = [?b]\<rparr>"
  have "case handleBLEData None ?e 1000 empty_document of Saved d \<Rightarrow> True | _ \<Rightarrow> False"
    by code_simp
  then obtain d where h1: "handleBLEData None ?e 1000 empty_document = Saved d"
    by (cases "handleBLEData None ?e 1000 empty_document") simp_all
  have h2: "device_id ?e = Some ''R1''" by simp
  have h3: "''R1'' \<noteq> ''__proto__''" by simp
  have h4: "ev_beacons ?e = [] @ ?b # []" by simp
  have h5: "mac ?b = Some ''AA:BB''" by simp
  have h6: "''AA:BB'' \<noteq> []" by simp
  have h7: "\<forall>x \<in> set []. mac x \<noteq> Some ''AA:BB''" by simp
  have h8: "adv_rssi ?b = JObj ?kvs" by simp
  from structured_rssi_normalised [OF h1 h2 h3 h4 h5 h6 h7 h8]
  have "map_option rssi (map_of (detections_of d ''AA:BB'') ''R1'') = Some (JNum (Fin (- 58)))"
    by simp
  with h1 show ?thesis by blast
qed

end
